theory Spec2Isabelle
  imports Main "HOL-Library.Word"
begin

section \<open>planedb.c: the FAA aircraft database reader\<close>

text \<open>
  A shallow embedding of \<^verbatim>\<open>planedb.c\<close> and \<^verbatim>\<open>planedb.h\<close>.

  \<^item> A C \<^verbatim>\<open>int\<close> is a 32-bit word; arithmetic wraps (two's complement), \<open>sint\<close> reads the
    value the C program sees.
  \<^item> A pointer is an address (a natural number), \<open>0\<close> is \<^verbatim>\<open>NULL\<close>.
  \<^item> A \<^verbatim>\<open>char\<close> array is a \<open>char list\<close> holding the whole array, terminator and the bytes
    behind it included; a read outside the array is a fault.
  \<^item> Undefined behaviour of the C program (a read outside an array, a dereference or a
    \<^verbatim>\<open>free\<close> of a pointer that designates no live object) is the result \<open>Inl\<close> of a fault.
  \<^item> A loop that follows pointers through the heap may run forever; such a function returns
    an \<open>option\<close>, and \<open>None\<close> is the run that never returns.
  \<^item> A file is the finite sequence of its bytes; reading it never fails half-way.
  \<^item> Messages written to \<^verbatim>\<open>stderr\<close> are left out; what \<^verbatim>\<open>printf\<close> writes is returned as a list of
    lines.
\<close>

type_synonym cint = "32 word"
type_synonym addr = nat

datatype fault = OutOfBounds | InvalidPointer

definition seq :: "fault + 'a \<Rightarrow> ('a \<Rightarrow> fault + 'b) \<Rightarrow> fault + 'b" where
  "seq m f = (case m of Inl e \<Rightarrow> Inl e | Inr x \<Rightarrow> f x)"

definition NUL :: char where
  "NUL = CHR 0x00"

definition newline :: char where
  "newline = CHR 0x0A"

text \<open>\<^verbatim>\<open>str[i]\<close> on a character array.\<close>

definition rd :: "char list \<Rightarrow> int \<Rightarrow> fault + char" where
  "rd str i = (if 0 \<le> i \<and> i < int (length str) then Inr (str ! nat i) else Inl OutOfBounds)"

definition in_range :: "char \<Rightarrow> char \<Rightarrow> char \<Rightarrow> bool" where
  "in_range lo hi c = ((of_char lo :: nat) \<le> of_char c \<and> (of_char c :: nat) \<le> of_char hi)"

text \<open>\<^verbatim>\<open>c - base + k\<close>, an \<^verbatim>\<open>int\<close>; only used when \<open>base \<le> c\<close>.\<close>

definition char_diff :: "char \<Rightarrow> char \<Rightarrow> nat \<Rightarrow> cint" where
  "char_diff c base k = word_of_nat (of_char c - of_char base + k)"

subsection \<open>Utility: \<^verbatim>\<open>parse_hex\<close>, \<^verbatim>\<open>parse_int\<close>, \<^verbatim>\<open>pickup\<close>\<close>

text \<open>The \<^verbatim>\<open>for (i=0 ; i < 8 ; i++)\<close> loop of \<^verbatim>\<open>parse_hex\<close>, entered with the current \<open>i\<close> and \<open>val\<close>.\<close>

function parse_hex_loop :: "char list \<Rightarrow> int \<Rightarrow> nat \<Rightarrow> cint \<Rightarrow> fault + cint" where
  "parse_hex_loop str offset i val =
     (if i < 8 then
        (case rd str (int i + offset) of
           Inl e \<Rightarrow> Inl e
         | Inr c \<Rightarrow>
             if in_range (CHR ''0'') (CHR ''9'') c then
               parse_hex_loop str offset (i + 1) (push_bit 4 val + char_diff c (CHR ''0'') 0)
             else if in_range (CHR ''a'') (CHR ''f'') c then
               parse_hex_loop str offset (i + 1) (push_bit 4 val + char_diff c (CHR ''a'') 10)
             else if in_range (CHR ''A'') (CHR ''F'') c then
               parse_hex_loop str offset (i + 1) (push_bit 4 val + char_diff c (CHR ''A'') 10)
             else Inr val)
      else Inr val)"
  by pat_completeness auto
termination
  by (relation "measure (\<lambda>(str, offset, i, val). 8 - i)") auto

declare parse_hex_loop.simps [simp del]

definition parse_hex :: "char list \<Rightarrow> int \<Rightarrow> fault + cint" where
  "parse_hex str offset = parse_hex_loop str offset 0 0"

function parse_int_loop :: "char list \<Rightarrow> int \<Rightarrow> nat \<Rightarrow> cint \<Rightarrow> fault + cint" where
  "parse_int_loop str offset i val =
     (if i < 10 then
        (case rd str (int i + offset) of
           Inl e \<Rightarrow> Inl e
         | Inr c \<Rightarrow>
             if in_range (CHR ''0'') (CHR ''9'') c then
               parse_int_loop str offset (i + 1) (val * 10 + char_diff c (CHR ''0'') 0)
             else Inr val)
      else Inr val)"
  by pat_completeness auto
termination
  by (relation "measure (\<lambda>(str, offset, i, val). 10 - i)") auto

declare parse_int_loop.simps [simp del]

definition parse_int :: "char list \<Rightarrow> int \<Rightarrow> fault + cint" where
  "parse_int str offset = parse_int_loop str offset 0 0"

text \<open>\<^verbatim>\<open>isspace\<close> in the C locale: space, \<^verbatim>\<open>\t \n \v \f \r\<close>.\<close>

definition isspace :: "char \<Rightarrow> bool" where
  "isspace c = (c = CHR '' '' \<or> in_range (CHR 0x09) (CHR 0x0D) c)"

text \<open>The \<^verbatim>\<open>while(last >= p0)\<close> loop of \<^verbatim>\<open>pickup\<close>; it returns the final \<^verbatim>\<open>last\<close>.\<close>

function pickup_loop :: "char list \<Rightarrow> int \<Rightarrow> int \<Rightarrow> fault + int" where
  "pickup_loop str p0 lastp =
     (if lastp \<ge> p0 then
        (case rd str lastp of
           Inl e \<Rightarrow> Inl e
         | Inr c \<Rightarrow> if \<not> isspace c then Inr lastp else pickup_loop str p0 (lastp - 1))
      else Inr lastp)"
  by pat_completeness auto
termination
  by (relation "measure (\<lambda>(str, p0, lastp). nat (lastp - p0 + 1))") auto

declare pickup_loop.simps [simp del]

text \<open>
  What \<^verbatim>\<open>strndup(&(str[p0]), n)\<close> copies: the characters from \<open>p0\<close> up to the terminator, at
  most \<open>n\<close> of them, the \<^verbatim>\<open>int\<close> \<open>n\<close> converted to the 64-bit \<^verbatim>\<open>size_t\<close>. Running off the array before
  either limit is a fault.
\<close>

definition strn_copy :: "char list \<Rightarrow> int \<Rightarrow> int \<Rightarrow> fault + string" where
  "strn_copy str p0 n =
     (if p0 < 0 \<or> int (length str) < p0 then Inl OutOfBounds
      else
        let size = (if n < 0 then n + 2 ^ 64 else n);
            src = drop (nat p0) str;
            s = takeWhile (\<lambda>c. c \<noteq> NUL) src
        in if size \<le> int (length s) then Inr (take (nat size) s)
           else if length s < length src then Inr s
           else Inl OutOfBounds)"

subsection \<open>Data model (\<^verbatim>\<open>planedb.h\<close>) and memory\<close>

record TypeInfo =
  ti_next :: addr
  ti_id :: cint
  ti_manufacturer :: addr
  ti_model :: addr
  ti_type :: cint
  ti_nrseats :: cint

record PlaneInfo =
  pi_next :: addr
  pi_id :: cint
  pi_nnum :: addr
  pi_model :: cint
  pi_registrant :: addr

record PlaneDb =
  types :: addr
  last_model :: cint
  last_ti :: addr
  planes :: addr
  last_icao :: cint
  last_pi :: addr

datatype block = TypeBlock TypeInfo | PlaneBlock PlaneInfo | DbBlock PlaneDb | StrBlock string

text \<open>
  The program's state: the objects obtained from \<^verbatim>\<open>malloc\<close> and not yet freed, the number
  of allocation requests made so far and the number of open files. The static line buffer
  \<^verbatim>\<open>inbuf\<close>, the other part of the state, is passed beside it by the functions that read
  files.
\<close>

record world =
  heap :: "addr \<rightharpoonup> block"
  requests :: nat
  open_files :: nat

text \<open>
  What the program does not control: the files, which allocation requests succeed, and the
  indeterminate bytes a fresh \<^verbatim>\<open>malloc\<close> block holds where the program reads a field it has
  never written (the \<^verbatim>\<open>next\<close> field of a record, the four cache fields of the context).
\<close>

record env =
  files :: "string \<Rightarrow> string option"
  alloc_ok :: "nat \<Rightarrow> bool"
  junk_next :: "addr \<Rightarrow> addr"
  junk_last_model :: cint
  junk_last_ti :: addr
  junk_last_icao :: cint
  junk_last_pi :: addr

definition INSIZE :: nat where
  "INSIZE = 1024"

text \<open>
  \<^verbatim>\<open>malloc\<close>: request number \<open>n\<close> (counted from 0) returns the fresh address \<open>n + 1\<close>, or
  \<^verbatim>\<open>NULL\<close> when the environment refuses it. Addresses are never handed out twice.
\<close>

definition malloc :: "env \<Rightarrow> world \<Rightarrow> addr \<times> world" where
  "malloc e w =
     (let n = requests w; w' = w\<lparr>requests := Suc n\<rparr>
      in if alloc_ok e n then (Suc n, w') else (0, w'))"

definition free :: "world \<Rightarrow> addr \<Rightarrow> fault + world" where
  "free w p =
     (if p = 0 then Inr w
      else case heap w p of
             None \<Rightarrow> Inl InvalidPointer
           | Some b \<Rightarrow> Inr (w\<lparr>heap := (heap w)(p := None)\<rparr>))"

definition set_block :: "world \<Rightarrow> addr \<Rightarrow> block \<Rightarrow> world" where
  "set_block w p b = w\<lparr>heap := (heap w)(p \<mapsto> b)\<rparr>"

definition get_type :: "world \<Rightarrow> addr \<Rightarrow> fault + TypeInfo" where
  "get_type w p = (case heap w p of Some (TypeBlock t) \<Rightarrow> Inr t | _ \<Rightarrow> Inl InvalidPointer)"

definition get_plane :: "world \<Rightarrow> addr \<Rightarrow> fault + PlaneInfo" where
  "get_plane w p = (case heap w p of Some (PlaneBlock t) \<Rightarrow> Inr t | _ \<Rightarrow> Inl InvalidPointer)"

definition get_db :: "world \<Rightarrow> addr \<Rightarrow> fault + PlaneDb" where
  "get_db w p = (case heap w p of Some (DbBlock d) \<Rightarrow> Inr d | _ \<Rightarrow> Inl InvalidPointer)"

definition get_str :: "world \<Rightarrow> addr \<Rightarrow> fault + string" where
  "get_str w p = (case heap w p of Some (StrBlock s) \<Rightarrow> Inr s | _ \<Rightarrow> Inl InvalidPointer)"

text \<open>A write to a field of the object at \<open>p\<close>.\<close>

definition upd_type :: "world \<Rightarrow> addr \<Rightarrow> (TypeInfo \<Rightarrow> TypeInfo) \<Rightarrow> fault + world" where
  "upd_type w p f = seq (get_type w p) (\<lambda>t. Inr (set_block w p (TypeBlock (f t))))"

definition upd_plane :: "world \<Rightarrow> addr \<Rightarrow> (PlaneInfo \<Rightarrow> PlaneInfo) \<Rightarrow> fault + world" where
  "upd_plane w p f = seq (get_plane w p) (\<lambda>t. Inr (set_block w p (PlaneBlock (f t))))"

definition upd_db :: "world \<Rightarrow> addr \<Rightarrow> (PlaneDb \<Rightarrow> PlaneDb) \<Rightarrow> fault + world" where
  "upd_db w p f = seq (get_db w p) (\<lambda>d. Inr (set_block w p (DbBlock (f d))))"

subsection \<open>Files\<close>

record stream =
  content :: "char list"
  at_eof :: bool

definition fopen :: "env \<Rightarrow> world \<Rightarrow> string \<Rightarrow> stream option \<times> world" where
  "fopen e w fname =
     (case files e fname of
        None \<Rightarrow> (None, w)
      | Some c \<Rightarrow> (Some \<lparr>content = c, at_eof = False\<rparr>, w\<lparr>open_files := Suc (open_files w)\<rparr>))"

definition fclose :: "world \<Rightarrow> world" where
  "fclose w = w\<lparr>open_files := open_files w - 1\<rparr>"

text \<open>The characters one \<^verbatim>\<open>fgets\<close> call stores: at most \<open>n\<close>, ending after the first newline.\<close>

fun read_line :: "nat \<Rightarrow> char list \<Rightarrow> char list" where
  "read_line 0 cs = []"
| "read_line (Suc n) [] = []"
| "read_line (Suc n) (c # cs) = (if c = newline then [c] else c # read_line n cs)"

text \<open>
  \<^verbatim>\<open>fgets(buf, n, f)\<close> for \<open>2 \<le> n \<le> length buf\<close>: the result is whether the returned pointer
  is non-null, the buffer and the stream afterwards. The end-of-file indicator is set when
  the read stopped because the file ended.
\<close>

definition fgets :: "char list \<Rightarrow> nat \<Rightarrow> stream \<Rightarrow> bool \<times> char list \<times> stream" where
  "fgets buf n f =
     (let l = read_line (n - 1) (content f)
      in if l = [] then (False, buf, f\<lparr>at_eof := True\<rparr>)
         else (True, l @ NUL # drop (Suc (length l)) buf,
               \<lparr>content = drop (length l) (content f),
                at_eof = (length l < n - 1 \<and> last l \<noteq> newline)\<rparr>))"

definition strlen :: "char list \<Rightarrow> fault + nat" where
  "strlen str =
     (let s = takeWhile (\<lambda>c. c \<noteq> NUL) str
      in if length s < length str then Inr (length s) else Inl OutOfBounds)"

text \<open>\<^verbatim>\<open>strndup\<close> and \<^verbatim>\<open>pickup\<close>; the returned pointer is \<^verbatim>\<open>NULL\<close> when the allocation fails.\<close>

definition strndup :: "env \<Rightarrow> world \<Rightarrow> char list \<Rightarrow> int \<Rightarrow> int \<Rightarrow> fault + addr \<times> world" where
  "strndup e w str p0 n =
     seq (strn_copy str p0 n) (\<lambda>s.
       let (p, w1) = malloc e w
       in Inr (if p = 0 then (0, w1) else (p, set_block w1 p (StrBlock s))))"

definition pickup :: "env \<Rightarrow> world \<Rightarrow> char list \<Rightarrow> int \<Rightarrow> int \<Rightarrow> fault + addr \<times> world" where
  "pickup e w str p0 p1 =
     seq (pickup_loop str p0 (p1 - 1)) (\<lambda>lastp. strndup e w str p0 (lastp - p0 + 1))"

subsection \<open>Aircraft type table\<close>

definition typeTable :: "string list" where
  "typeTable =
     [''None'', ''Glider'', ''Balloon'', ''Blimp/Dirigible'', ''Fixed wing single engine'',
      ''Fixed wing multi engine'', ''Rotorcraft'', ''Weight-shift-control'',
      ''Powered Parachute'', ''Gyroplane'']"

text \<open>\<^verbatim>\<open>typeTable[i]\<close>: the array has no bounds check of its own.\<close>

definition typeTable_at :: "int \<Rightarrow> fault + string" where
  "typeTable_at i =
     (if 0 \<le> i \<and> i < int (length typeTable) then Inr (typeTable ! nat i) else Inl OutOfBounds)"

definition typeInfoCreate :: "env \<Rightarrow> world \<Rightarrow> addr \<times> world" where
  "typeInfoCreate e w =
     (let (ti, w1) = malloc e w
      in if ti = 0 then (0, w1)
         else (ti, set_block w1 ti (TypeBlock
                 \<lparr>ti_next = junk_next e ti, ti_id = 0, ti_manufacturer = 0, ti_model = 0,
                  ti_type = 0, ti_nrseats = 0\<rparr>)))"

definition typeInfoDelete :: "world \<Rightarrow> addr \<Rightarrow> fault + world" where
  "typeInfoDelete w ti =
     (if ti = 0 then Inr w
      else
        seq (get_type w ti) (\<lambda>t.
        seq (if ti_manufacturer t \<noteq> 0 then free w (ti_manufacturer t) else Inr w) (\<lambda>w1.
        seq (get_type w1 ti) (\<lambda>t1.
        seq (if ti_model t1 \<noteq> 0 then free w1 (ti_model t1) else Inr w1) (\<lambda>w2.
        free w2 ti)))))"

text \<open>The decimal text \<^verbatim>\<open>printf("%d")\<close> writes.\<close>

fun show_nat :: "nat \<Rightarrow> string" where
  "show_nat n =
     (if n < 10 then [char_of (48 + n)] else show_nat (n div 10) @ [char_of (48 + n mod 10)])"

declare show_nat.simps [simp del]

definition show_int :: "int \<Rightarrow> string" where
  "show_int i = (if i < 0 then CHR ''-'' # show_nat (nat (- i)) else show_nat (nat i))"

text \<open>
  \<^verbatim>\<open>typeInfoPrint\<close> returns the lines it has printed. After printing \<^verbatim>\<open>None\<close> for a null
  pointer the function goes on and reads through it.
\<close>

definition typeInfoPrint :: "world \<Rightarrow> addr \<Rightarrow> fault + string list" where
  "typeInfoPrint w ti =
     (let out0 = (if ti = 0 then [''None''] else []) @ [''  ## Type'']
      in
        seq (get_type w ti) (\<lambda>t.
        seq (if ti_manufacturer t \<noteq> 0
             then seq (get_str w (ti_manufacturer t)) (\<lambda>s. Inr [''    Manufacturer   : '' @ s])
             else Inr []) (\<lambda>out1.
        seq (if ti_model t \<noteq> 0
             then seq (get_str w (ti_model t)) (\<lambda>s. Inr [''    Model name     : '' @ s])
             else Inr []) (\<lambda>out2.
        seq (typeTable_at (sint (ti_type t))) (\<lambda>descr.
        Inr (out0 @ out1 @ out2 @
             [''    Type           : '' @ show_int (sint (ti_type t)) @ '' - '' @ descr,
              ''    Seats          : '' @ show_int (sint (ti_nrseats t))]))))))"

text \<open>
  The \<^verbatim>\<open>while (rec)\<close> loop of \<^verbatim>\<open>type_lookup\<close>. It follows \<^verbatim>\<open>next\<close> pointers through the
  heap, so it need not end: \<open>None\<close> is a run that never returns.
\<close>

partial_function (option) type_lookup_loop ::
    "world \<Rightarrow> addr \<Rightarrow> cint \<Rightarrow> addr \<Rightarrow> (fault + addr \<times> world) option" where
  "type_lookup_loop w db ident r =
     (if r = 0 then Some (Inr (0, w))
      else case get_type w r of
             Inl x \<Rightarrow> Some (Inl x)
           | Inr t \<Rightarrow>
               if ti_id t = ident then
                 (case upd_db w db (\<lambda>d. d\<lparr>last_model := ident, last_ti := r\<rparr>) of
                    Inl x \<Rightarrow> Some (Inl x)
                  | Inr w1 \<Rightarrow> Some (Inr (r, w1)))
               else type_lookup_loop w db ident (ti_next t))"

declare type_lookup_loop.simps [code]

definition type_lookup :: "world \<Rightarrow> addr \<Rightarrow> cint \<Rightarrow> (fault + addr \<times> world) option" where
  "type_lookup w db ident =
     (case get_db w db of
        Inl x \<Rightarrow> Some (Inl x)
      | Inr d \<Rightarrow>
          if ident = last_model d then Some (Inr (last_ti d, w))
          else type_lookup_loop w db ident (types d))"

text \<open>
  One pass of the \<^verbatim>\<open>while (!feof(f))\<close> loop of a loader, after \<^verbatim>\<open>fgets\<close> has returned a line:
  either the loop goes on (with the new \<^verbatim>\<open>prev\<close>) or the loader returns.
\<close>

datatype step = Continue world addr | Return bool world

definition load_types_line :: "env \<Rightarrow> world \<Rightarrow> char list \<Rightarrow> addr \<Rightarrow> addr \<Rightarrow> fault + step" where
  "load_types_line e w str db prev =
     seq (strlen str) (\<lambda>len.
     if len < 68 then Inr (Continue w prev)
     else
       let (ti, w1) = typeInfoCreate e w
       in if ti = 0 then Inr (Return False (fclose w1))
          else
            seq (parse_int str 0) (\<lambda>v.
            seq (upd_type w1 ti (\<lambda>t. t\<lparr>ti_id := v\<rparr>)) (\<lambda>w2.
            seq (pickup e w2 str 8 38) (\<lambda>(m, w3).
            seq (upd_type w3 ti (\<lambda>t. t\<lparr>ti_manufacturer := m\<rparr>)) (\<lambda>w4.
            if m = 0 then Inr (Return False w4)
            else
              seq (pickup e w4 str 39 59) (\<lambda>(m', w5).
              seq (upd_type w5 ti (\<lambda>t. t\<lparr>ti_model := m'\<rparr>)) (\<lambda>w6.
              if m' = 0 then Inr (Return False w6)
              else
                seq (parse_int str 60) (\<lambda>v'.
                seq (upd_type w6 ti (\<lambda>t. t\<lparr>ti_type := v'\<rparr>)) (\<lambda>w7.
                seq (parse_int str 72) (\<lambda>v''.
                seq (upd_type w7 ti (\<lambda>t. t\<lparr>ti_nrseats := v''\<rparr>)) (\<lambda>w8.
                seq (if prev \<noteq> 0 then upd_type w8 prev (\<lambda>t. t\<lparr>ti_next := ti\<rparr>)
                     else upd_db w8 db (\<lambda>d. d\<lparr>types := ti\<rparr>)) (\<lambda>w9.
                Inr (Continue w9 ti)))))))))))))"

function load_types_loop ::
    "env \<Rightarrow> world \<Rightarrow> char list \<Rightarrow> addr \<Rightarrow> stream \<Rightarrow> addr \<Rightarrow> fault + bool \<times> world \<times> char list" where
  "load_types_loop e w buf db f prev =
     (if at_eof f then Inr (True, fclose w, buf)
      else
        let (str, buf1, f1) = fgets buf INSIZE f
        in if \<not> str then load_types_loop e w buf1 db f1 prev
           else (case load_types_line e w buf1 db prev of
                   Inl x \<Rightarrow> Inl x
                 | Inr (Return b w2) \<Rightarrow> Inr (b, w2, buf1)
                 | Inr (Continue w2 prev2) \<Rightarrow> load_types_loop e w2 buf1 db f1 prev2))"
  by pat_completeness auto
termination
proof (relation "measure (\<lambda>(e, w, buf, db, f, prev). 2 * length (content f) + (if at_eof f then 0 else 1))")
  show "wf (measure (\<lambda>(e, w, buf, db, f, prev). 2 * length (content f) + (if at_eof f then 0 else 1)))"
    by simp
next
  fix e :: env and w :: world and buf :: "char list" and db :: addr and f :: stream and prev :: addr
    and x :: "bool \<times> char list \<times> stream" and str :: bool and y :: "char list \<times> stream"
    and buf1 :: "char list" and f1 :: stream
  assume "\<not> at_eof f" and "x = fgets buf INSIZE f" and "(str, y) = x" and "(buf1, f1) = y"
    and "\<not> str"
  then show "((e, w, buf1, db, f1, prev), (e, w, buf, db, f, prev))
      \<in> measure (\<lambda>(e, w, buf, db, f, prev). 2 * length (content f) + (if at_eof f then 0 else 1))"
    by (auto simp: fgets_def Let_def split: if_splits)
next
  fix e :: env and w :: world and buf :: "char list" and db :: addr and f :: stream and prev :: addr
    and x :: "bool \<times> char list \<times> stream" and str :: bool and y :: "char list \<times> stream"
    and buf1 :: "char list" and f1 :: stream and x2 :: step and w2 :: world
    and prev2 :: addr
  assume "\<not> at_eof f" and "x = fgets buf INSIZE f" and "(str, y) = x" and "(buf1, f1) = y"
    and "\<not> \<not> str"
  then have "f1 = \<lparr>content = drop (length (read_line (INSIZE - 1) (content f))) (content f),
               at_eof = (length (read_line (INSIZE - 1) (content f)) < INSIZE - 1
                  \<and> last (read_line (INSIZE - 1) (content f)) \<noteq> newline)\<rparr>"
    and "read_line (INSIZE - 1) (content f) \<noteq> []"
    by (auto simp: fgets_def Let_def split: if_splits)
  moreover have "length (read_line n cs) \<le> length cs" for n cs
    by (induction n cs rule: read_line.induct) auto
  then have "length (read_line (INSIZE - 1) (content f)) \<le> length (content f)" .
  ultimately show "((e, w2, buf1, db, f1, prev2), (e, w, buf, db, f, prev))
      \<in> measure (\<lambda>(e, w, buf, db, f, prev). 2 * length (content f) + (if at_eof f then 0 else 1))"
    using \<open>\<not> at_eof f\<close> by (cases "read_line (INSIZE - 1) (content f)") auto
qed

declare load_types_loop.simps [simp del]

definition load_types ::
    "env \<Rightarrow> world \<Rightarrow> char list \<Rightarrow> addr \<Rightarrow> fault + bool \<times> world \<times> char list" where
  "load_types e w buf db =
     (case fopen e w ''ACFTREF.txt'' of
        (None, w1) \<Rightarrow> Inr (False, w1, buf)
      | (Some f, w1) \<Rightarrow> load_types_loop e w1 buf db f 0)"

subsection \<open>Registration database\<close>

definition planeInfoCreate :: "env \<Rightarrow> world \<Rightarrow> addr \<times> world" where
  "planeInfoCreate e w =
     (let (pi, w1) = malloc e w
      in if pi = 0 then (0, w1)
         else (pi, set_block w1 pi (PlaneBlock
                 \<lparr>pi_next = junk_next e pi, pi_id = 0, pi_nnum = 0, pi_model = 0,
                  pi_registrant = 0\<rparr>)))"

definition planeInfoDelete :: "world \<Rightarrow> addr \<Rightarrow> fault + world" where
  "planeInfoDelete w pi =
     (if pi = 0 then Inr w
      else
        seq (get_plane w pi) (\<lambda>t.
        seq (if pi_nnum t \<noteq> 0 then free w (pi_nnum t) else Inr w) (\<lambda>w1.
        seq (get_plane w1 pi) (\<lambda>t1.
        seq (if pi_registrant t1 \<noteq> 0 then free w1 (pi_registrant t1) else Inr w1) (\<lambda>w2.
        free w2 pi)))))"

text \<open>\<^verbatim>\<open>planeInfoPrint\<close> returns the printed lines and the state (the lookup writes the cache).\<close>

definition planeInfoPrint :: "world \<Rightarrow> addr \<Rightarrow> addr \<Rightarrow> (fault + string list \<times> world) option" where
  "planeInfoPrint w db pi =
     (let out0 = (if pi = 0 then [''None''] else []) @ [''  ## Registration'']
      in case
           seq (get_plane w pi) (\<lambda>t.
           seq (if pi_nnum t \<noteq> 0
                then seq (get_str w (pi_nnum t)) (\<lambda>s. Inr [''    N-Number       : '' @ s])
                else Inr []) (\<lambda>out1.
           seq (if pi_registrant t \<noteq> 0
                then seq (get_str w (pi_registrant t)) (\<lambda>s. Inr [''    Registrant     : '' @ s])
                else Inr []) (\<lambda>out2.
           Inr (pi_model t,
                out0 @ out1 @ out2 @
                (if pi_model t \<noteq> 0 then [''    Model          : '' @ show_int (sint (pi_model t))]
                 else [])))))
         of
           Inl x \<Rightarrow> Some (Inl x)
         | Inr (model, out) \<Rightarrow>
             (case type_lookup w db model of
                None \<Rightarrow> None
              | Some (Inl x) \<Rightarrow> Some (Inl x)
              | Some (Inr (ti, w1)) \<Rightarrow>
                  if ti = 0 then Some (Inr (out @ [''No model info''], w1))
                  else (case typeInfoPrint w1 ti of
                          Inl x \<Rightarrow> Some (Inl x)
                        | Inr out' \<Rightarrow> Some (Inr (out @ out', w1)))))"

definition load_planes_line :: "env \<Rightarrow> world \<Rightarrow> char list \<Rightarrow> addr \<Rightarrow> addr \<Rightarrow> fault + step" where
  "load_planes_line e w str db prev =
     seq (strlen str) (\<lambda>len.
     if len < 610 then Inr (Continue w prev)
     else
       let (pi, w1) = planeInfoCreate e w
       in if pi = 0 then Inr (Return False (fclose w1))
          else
            seq (parse_hex str 601) (\<lambda>v.
            seq (upd_plane w1 pi (\<lambda>t. t\<lparr>pi_id := v\<rparr>)) (\<lambda>w2.
            seq (pickup e w2 str 0 5) (\<lambda>(m, w3).
            seq (upd_plane w3 pi (\<lambda>t. t\<lparr>pi_nnum := m\<rparr>)) (\<lambda>w4.
            if m = 0 then Inr (Return False w4)
            else
              seq (parse_int str 37) (\<lambda>v'.
              seq (upd_plane w4 pi (\<lambda>t. t\<lparr>pi_model := v'\<rparr>)) (\<lambda>w5.
              seq (pickup e w5 str 58 107) (\<lambda>(m', w6).
              seq (upd_plane w6 pi (\<lambda>t. t\<lparr>pi_registrant := m'\<rparr>)) (\<lambda>w7.
              if m' = 0 then Inr (Return False w7)
              else
                seq (if prev \<noteq> 0 then upd_plane w7 prev (\<lambda>t. t\<lparr>pi_next := pi\<rparr>)
                     else upd_db w7 db (\<lambda>d. d\<lparr>planes := pi\<rparr>)) (\<lambda>w8.
                Inr (Continue w8 pi)))))))))))"

function load_planes_loop ::
    "env \<Rightarrow> world \<Rightarrow> char list \<Rightarrow> addr \<Rightarrow> stream \<Rightarrow> addr \<Rightarrow> fault + bool \<times> world \<times> char list" where
  "load_planes_loop e w buf db f prev =
     (if at_eof f then Inr (True, fclose w, buf)
      else
        let (str, buf1, f1) = fgets buf INSIZE f
        in if \<not> str then load_planes_loop e w buf1 db f1 prev
           else (case load_planes_line e w buf1 db prev of
                   Inl x \<Rightarrow> Inl x
                 | Inr (Return b w2) \<Rightarrow> Inr (b, w2, buf1)
                 | Inr (Continue w2 prev2) \<Rightarrow> load_planes_loop e w2 buf1 db f1 prev2))"
  by pat_completeness auto
termination
proof (relation "measure (\<lambda>(e, w, buf, db, f, prev). 2 * length (content f) + (if at_eof f then 0 else 1))")
  show "wf (measure (\<lambda>(e, w, buf, db, f, prev). 2 * length (content f) + (if at_eof f then 0 else 1)))"
    by simp
next
  fix e :: env and w :: world and buf :: "char list" and db :: addr and f :: stream and prev :: addr
    and x :: "bool \<times> char list \<times> stream" and str :: bool and y :: "char list \<times> stream"
    and buf1 :: "char list" and f1 :: stream
  assume "\<not> at_eof f" and "x = fgets buf INSIZE f" and "(str, y) = x" and "(buf1, f1) = y"
    and "\<not> str"
  then show "((e, w, buf1, db, f1, prev), (e, w, buf, db, f, prev))
      \<in> measure (\<lambda>(e, w, buf, db, f, prev). 2 * length (content f) + (if at_eof f then 0 else 1))"
    by (auto simp: fgets_def Let_def split: if_splits)
next
  fix e :: env and w :: world and buf :: "char list" and db :: addr and f :: stream and prev :: addr
    and x :: "bool \<times> char list \<times> stream" and str :: bool and y :: "char list \<times> stream"
    and buf1 :: "char list" and f1 :: stream and x2 :: step and w2 :: world
    and prev2 :: addr
  assume "\<not> at_eof f" and "x = fgets buf INSIZE f" and "(str, y) = x" and "(buf1, f1) = y"
    and "\<not> \<not> str"
  then have "f1 = \<lparr>content = drop (length (read_line (INSIZE - 1) (content f))) (content f),
               at_eof = (length (read_line (INSIZE - 1) (content f)) < INSIZE - 1
                  \<and> last (read_line (INSIZE - 1) (content f)) \<noteq> newline)\<rparr>"
    and "read_line (INSIZE - 1) (content f) \<noteq> []"
    by (auto simp: fgets_def Let_def split: if_splits)
  moreover have "length (read_line n cs) \<le> length cs" for n cs
    by (induction n cs rule: read_line.induct) auto
  then have "length (read_line (INSIZE - 1) (content f)) \<le> length (content f)" .
  ultimately show "((e, w2, buf1, db, f1, prev2), (e, w, buf, db, f, prev))
      \<in> measure (\<lambda>(e, w, buf, db, f, prev). 2 * length (content f) + (if at_eof f then 0 else 1))"
    using \<open>\<not> at_eof f\<close> by (cases "read_line (INSIZE - 1) (content f)") auto
qed

declare load_planes_loop.simps [simp del]

definition load_planes ::
    "env \<Rightarrow> world \<Rightarrow> char list \<Rightarrow> addr \<Rightarrow> fault + bool \<times> world \<times> char list" where
  "load_planes e w buf db =
     (case fopen e w ''MASTER.txt'' of
        (None, w1) \<Rightarrow> Inr (False, w1, buf)
      | (Some f, w1) \<Rightarrow> load_planes_loop e w1 buf db f 0)"

subsection \<open>Main database\<close>

text \<open>The two \<^verbatim>\<open>for\<close> loops of \<^verbatim>\<open>planedb_close\<close>.\<close>

partial_function (option) close_types_loop :: "world \<Rightarrow> addr \<Rightarrow> (fault + world) option" where
  "close_types_loop w trec =
     (if trec = 0 then Some (Inr w)
      else case get_type w trec of
             Inl x \<Rightarrow> Some (Inl x)
           | Inr t \<Rightarrow>
               (case typeInfoDelete w trec of
                  Inl x \<Rightarrow> Some (Inl x)
                | Inr w1 \<Rightarrow> close_types_loop w1 (ti_next t)))"

partial_function (option) close_planes_loop :: "world \<Rightarrow> addr \<Rightarrow> (fault + world) option" where
  "close_planes_loop w prec =
     (if prec = 0 then Some (Inr w)
      else case get_plane w prec of
             Inl x \<Rightarrow> Some (Inl x)
           | Inr t \<Rightarrow>
               (case planeInfoDelete w prec of
                  Inl x \<Rightarrow> Some (Inl x)
                | Inr w1 \<Rightarrow> close_planes_loop w1 (pi_next t)))"

declare close_types_loop.simps [code] close_planes_loop.simps [code]

definition planedb_close :: "world \<Rightarrow> addr \<Rightarrow> (fault + bool \<times> world) option" where
  "planedb_close w db =
     (if db = 0 then Some (Inr (False, w))
      else case get_db w db of
             Inl x \<Rightarrow> Some (Inl x)
           | Inr d \<Rightarrow>
               (case close_types_loop w (types d) of
                  None \<Rightarrow> None
                | Some (Inl x) \<Rightarrow> Some (Inl x)
                | Some (Inr w1) \<Rightarrow>
                    (case get_db w1 db of
                       Inl x \<Rightarrow> Some (Inl x)
                     | Inr d1 \<Rightarrow>
                         (case close_planes_loop w1 (planes d1) of
                            None \<Rightarrow> None
                          | Some (Inl x) \<Rightarrow> Some (Inl x)
                          | Some (Inr w2) \<Rightarrow>
                              (case free w2 db of
                                 Inl x \<Rightarrow> Some (Inl x)
                               | Inr w3 \<Rightarrow> Some (Inr (True, w3)))))))"

text \<open>
  \<^verbatim>\<open>planedb_init\<close> writes \<^verbatim>\<open>types\<close> and \<^verbatim>\<open>planes\<close> of the fresh context and nothing else: the
  four cache fields keep what the block held.
\<close>

definition planedb_init :: "env \<Rightarrow> world \<Rightarrow> char list \<Rightarrow> (fault + addr \<times> world \<times> char list) option" where
  "planedb_init e w buf =
     (let (db, w1) = malloc e w
      in if db = 0 then Some (Inr (0, w1, buf))
         else
           let w2 = set_block w1 db (DbBlock
                      \<lparr>types = 0, last_model = junk_last_model e, last_ti = junk_last_ti e,
                       planes = 0, last_icao = junk_last_icao e, last_pi = junk_last_pi e\<rparr>)
           in case load_types e w2 buf db of
                Inl x \<Rightarrow> Some (Inl x)
              | Inr (ok, w3, buf3) \<Rightarrow>
                  if \<not> ok then
                    (case planedb_close w3 db of
                       None \<Rightarrow> None
                     | Some (Inl x) \<Rightarrow> Some (Inl x)
                     | Some (Inr (b, w4)) \<Rightarrow> Some (Inr (0, w4, buf3)))
                  else
                    (case load_planes e w3 buf3 db of
                       Inl x \<Rightarrow> Some (Inl x)
                     | Inr (ok', w4, buf4) \<Rightarrow>
                         if \<not> ok' then
                           (case planedb_close w4 db of
                              None \<Rightarrow> None
                            | Some (Inl x) \<Rightarrow> Some (Inl x)
                            | Some (Inr (b, w5)) \<Rightarrow> Some (Inr (0, w5, buf4)))
                         else Some (Inr (db, w4, buf4))))"

partial_function (option) planedb_lookup_loop ::
    "world \<Rightarrow> addr \<Rightarrow> cint \<Rightarrow> addr \<Rightarrow> (fault + addr \<times> world) option" where
  "planedb_lookup_loop w db ident r =
     (if r = 0 then Some (Inr (0, w))
      else case get_plane w r of
             Inl x \<Rightarrow> Some (Inl x)
           | Inr t \<Rightarrow>
               if pi_id t = ident then
                 (case upd_db w db (\<lambda>d. d\<lparr>last_icao := ident, last_pi := r\<rparr>) of
                    Inl x \<Rightarrow> Some (Inl x)
                  | Inr w1 \<Rightarrow> Some (Inr (r, w1)))
               else planedb_lookup_loop w db ident (pi_next t))"

declare planedb_lookup_loop.simps [code]

text \<open>
  The argument \<open>icao\<close> is the character array the pointer designates (the string and its
  terminator), \<open>None\<close> for a null pointer.
\<close>

definition planedb_lookup :: "world \<Rightarrow> addr \<Rightarrow> char list option \<Rightarrow> (fault + addr \<times> world) option" where
  "planedb_lookup w db icao =
     (case icao of
        None \<Rightarrow> Some (Inr (0, w))
      | Some str \<Rightarrow>
          (if db = 0 then Some (Inr (0, w))
           else (case parse_hex str 0 of
                   Inl x \<Rightarrow> Some (Inl x)
                 | Inr ident \<Rightarrow>
                     (case get_db w db of
                        Inl x \<Rightarrow> Some (Inl x)
                      | Inr d \<Rightarrow>
                          if ident = last_icao d then Some (Inr (last_pi d, w))
                          else planedb_lookup_loop w db ident (planes d)))))"

text \<open>The state at program start: nothing allocated, the static buffer zeroed.\<close>

definition world0 :: world where
  "world0 = \<lparr>heap = Map.empty, requests = 0, open_files = 0\<rparr>"

definition inbuf0 :: "char list" where
  "inbuf0 = replicate INSIZE NUL"

subsection \<open>Reference notions for the properties\<close>

text \<open>
  The base-16 value of a string of hex digits, as the specification words it: the value of
  the digit string read as a base-16 numeral.
\<close>

definition is_hex :: "char \<Rightarrow> bool" where
  "is_hex c = (in_range (CHR ''0'') (CHR ''9'') c \<or> in_range (CHR ''a'') (CHR ''f'') c
                \<or> in_range (CHR ''A'') (CHR ''F'') c)"

definition hex_digit :: "char \<Rightarrow> nat" where
  "hex_digit c =
     (if in_range (CHR ''0'') (CHR ''9'') c then of_char c - of_char (CHR ''0'')
      else if in_range (CHR ''a'') (CHR ''f'') c then of_char c - of_char (CHR ''a'') + 10
      else of_char c - of_char (CHR ''A'') + 10)"

definition hex_value :: "string \<Rightarrow> nat" where
  "hex_value ds = foldl (\<lambda>n c. 16 * n + hex_digit c) 0 ds"

subsection \<open>Example inputs\<close>

text \<open>
  An environment in which every allocation succeeds and fresh memory is zero-filled, over
  the given files.
\<close>

definition zeroed_env :: "(string \<Rightarrow> string option) \<Rightarrow> env" where
  "zeroed_env fs =
     \<lparr>files = fs, alloc_ok = (\<lambda>n. True), junk_next = (\<lambda>a. 0), junk_last_model = 0,
      junk_last_ti = 0, junk_last_icao = 0, junk_last_pi = 0\<rparr>"

definition no_files :: "string \<Rightarrow> string option" where
  "no_files fname = None"

text \<open>A field padded with blanks to its fixed width.\<close>

definition pad :: "nat \<Rightarrow> string \<Rightarrow> string" where
  "pad n s = s @ replicate (n - length s) (CHR '' '')"

text \<open>
  A line of \<^verbatim>\<open>ACFTREF.txt\<close> in the FAA layout: code (7), manufacturer (30), model (20), each
  followed by a comma, then the remaining fields from offset 60 on, and the newline.
\<close>

definition acftref_line :: "string \<Rightarrow> string \<Rightarrow> string \<Rightarrow> string \<Rightarrow> string" where
  "acftref_line code mfr model rest =
     pad 7 code @ '','' @ pad 30 mfr @ '','' @ pad 20 model @ '','' @ rest @ [newline]"

text \<open>The file system holding the two data files with the given contents.\<close>

definition two_files :: "string option \<Rightarrow> string option \<Rightarrow> string \<Rightarrow> string option" where
  "two_files acftref master fname =
     (if fname = ''ACFTREF.txt'' then acftref
      else if fname = ''MASTER.txt'' then master
      else None)"

text \<open>The header line of the FAA's \<^verbatim>\<open>ACFTREF.txt\<close>.\<close>

definition acftref_header :: string where
  "acftref_header =
     ''CODE,MFR,MODEL,TYPE-ACFT,TYPE-ENG,AC-CAT,BUILD-CERT-IND,NO-ENG,NO-SEATS,AC-WEIGHT,SPEED,TC-DATA-SHEET,TC-DATA-HOLDER''
     @ [newline]"

text \<open>The address a lookup returns, without the state.\<close>

definition found :: "(fault + addr \<times> world) option \<Rightarrow> (fault + addr) option" where
  "found r = map_option (map_sum id fst) r"

text \<open>
  A line of \<^verbatim>\<open>MASTER.txt\<close>: N-number at offset 0, model code at offset 37, registrant at
  offset 58, Mode S hex code at offset 601, and the newline; 611 bytes.
\<close>

definition master_line :: "string \<Rightarrow> string \<Rightarrow> string \<Rightarrow> string \<Rightarrow> string" where
  "master_line nnum model registrant hex =
     pad 37 nnum @ pad 21 model @ pad 543 registrant @ pad 9 hex @ [newline]"

subsection \<open>The lists in the heap\<close>

text \<open>
  \<open>type_path w p as q\<close>: following \<^verbatim>\<open>next\<close> from the pointer \<open>p\<close> one meets the \<^verbatim>\<open>TypeInfo\<close> objects
  at the addresses \<open>as\<close>, in this order, and the \<^verbatim>\<open>next\<close> field of the last one holds \<open>q\<close>.
\<close>

fun type_path :: "world \<Rightarrow> addr \<Rightarrow> addr list \<Rightarrow> addr \<Rightarrow> bool" where
  "type_path w p [] q = (p = q)"
| "type_path w p (a # as) q =
     (p = a \<and> a \<noteq> 0 \<and>
      (case get_type w a of Inl x \<Rightarrow> False | Inr t \<Rightarrow> type_path w (ti_next t) as q))"

fun plane_path :: "world \<Rightarrow> addr \<Rightarrow> addr list \<Rightarrow> addr \<Rightarrow> bool" where
  "plane_path w p [] q = (p = q)"
| "plane_path w p (a # as) q =
     (p = a \<and> a \<noteq> 0 \<and>
      (case get_plane w a of Inl x \<Rightarrow> False | Inr t \<Rightarrow> plane_path w (pi_next t) as q))"

text \<open>The ids of the records at the given addresses; \<open>None\<close> where there is no such record.\<close>

definition type_id_at :: "world \<Rightarrow> addr \<Rightarrow> cint option" where
  "type_id_at w a = (case get_type w a of Inl x \<Rightarrow> None | Inr t \<Rightarrow> Some (ti_id t))"

definition plane_id_at :: "world \<Rightarrow> addr \<Rightarrow> cint option" where
  "plane_id_at w a = (case get_plane w a of Inl x \<Rightarrow> None | Inr t \<Rightarrow> Some (pi_id t))"

subsection \<open>Lines of a file\<close>

text \<open>The length \<^verbatim>\<open>strlen\<close> finds for a line that \<^verbatim>\<open>fgets\<close> has stored: up to its first zero byte.\<close>

definition c_strlen :: "string \<Rightarrow> nat" where
  "c_strlen l = length (takeWhile (\<lambda>c. c \<noteq> NUL) l)"

text \<open>
  The lines of a file as successive \<^verbatim>\<open>fgets\<close> calls with the buffer size \<^verbatim>\<open>INSIZE\<close> deliver
  them: each ends after its newline (which belongs to the line) or after \<open>INSIZE - 1\<close> bytes.
\<close>

function file_lines :: "string \<Rightarrow> string list" where
  "file_lines cs =
     (if cs = [] then []
      else let l = read_line (INSIZE - 1) cs in l # file_lines (drop (length l) cs))"
  by pat_completeness auto
termination
proof (relation "measure length")
  show "wf (measure (length :: string \<Rightarrow> nat))" by simp
next
  fix cs l :: string
  assume "cs \<noteq> []" and "l = read_line (INSIZE - 1) cs"
  moreover have "INSIZE - 1 = Suc 1022" by (simp add: INSIZE_def)
  moreover obtain c cs' where "cs = c # cs'" using \<open>cs \<noteq> []\<close> by (cases cs) auto
  moreover have "read_line (Suc 1022) (c # cs') \<noteq> []"
    by (simp only: read_line.simps split: if_split) simp
  ultimately have "l \<noteq> []" by metis
  then show "(drop (length l) cs, cs) \<in> measure length"
    using \<open>cs \<noteq> []\<close> by simp
qed

declare file_lines.simps [simp del]

text \<open>Every live object lies at an address that an earlier allocation request returned.\<close>

definition heap_bounded :: "world \<Rightarrow> bool" where
  "heap_bounded w = (\<forall>a. heap w a \<noteq> None \<longrightarrow> 0 < a \<and> a \<le> requests w)"

text \<open>
  The state in which \<^verbatim>\<open>planedb_init\<close> calls the loaders, from program start with zero-filled
  memory: the context at address 1, both lists empty.
\<close>

definition fresh_db_world :: world where
  "fresh_db_world =
     \<lparr>heap = [1 \<mapsto> DbBlock \<lparr>types = 0, last_model = 0, last_ti = 0, planes = 0,
                              last_icao = 0, last_pi = 0\<rparr>],
      requests = 1, open_files = 0\<rparr>"

text \<open>A type file of three lines, the second cut off after 40 bytes.\<close>

definition three_type_lines :: string where
  "three_type_lines =
     acftref_line ''1200118'' ''CESSNA'' ''170'' ''4,01,1,0,01,004''
     @ take 40 (acftref_line ''1200119'' ''CESSNA'' ''172'' ''4,01,1,0,01,004'') @ [newline]
     @ acftref_line ''1200120'' ''CESSNA'' ''172A'' ''4,01,1,0,01,004''"

text \<open>A registration file of two lines, the second cut off after 100 bytes.\<close>

definition two_plane_lines :: string where
  "two_plane_lines =
     master_line ''12345'' ''1200119'' ''JOHN DOE'' ''A1B2C3''
     @ take 100 (master_line ''2345'' ''1200120'' ''JANE DOE'' ''A1B2C4'') @ [newline]"

text \<open>
  Two type files of a single line each: 80 bytes with a zero byte as the eleventh, and 1099
  bytes.
\<close>

definition nul_line :: string where
  "nul_line = replicate 10 (CHR ''x'') @ [NUL] @ replicate 68 (CHR ''x'') @ [newline]"

definition long_line :: string where
  "long_line = replicate 1098 (CHR ''x'') @ [newline]"

text \<open>
  The load has returned success and the type list of the context \<open>db\<close> holds exactly the records
  at the addresses \<open>as\<close>, in this order, and ends in \<^verbatim>\<open>NULL\<close>.
\<close>

definition records_linked ::
    "fault + bool \<times> world \<times> char list \<Rightarrow> addr \<Rightarrow> addr list \<Rightarrow> bool" where
  "records_linked r db as =
     (case r of
        Inl x \<Rightarrow> False
      | Inr (ok, w, buf) \<Rightarrow>
          ok \<and> (case get_db w db of Inl x \<Rightarrow> False | Inr d \<Rightarrow> type_path w (types d) as 0))"

text \<open>A type file of three lines, the last two with the same id.\<close>

definition duplicate_type_lines :: string where
  "duplicate_type_lines =
     acftref_line ''1200118'' ''CESSNA'' ''170'' ''4,01,1,0,01,004''
     @ acftref_line ''1200119'' ''CESSNA'' ''172'' ''4,01,1,0,01,004''
     @ acftref_line ''1200119'' ''CESSNA'' ''172 DUPLICATE'' ''5,01,1,0,01,006''"

text \<open>The model name of the type record at an address.\<close>

definition model_name_at :: "world \<Rightarrow> addr \<Rightarrow> fault + string" where
  "model_name_at w a = seq (get_type w a) (\<lambda>t. get_str w (ti_model t))"

section \<open>Properties\<close>

subsection \<open>The hex extractor\<close>

lemma parse_hex_loop_fold:
  assumes "0 \<le> offset" and "i \<le> 8"
    and "ds = takeWhile is_hex (take (8 - i) (drop (nat offset + i) str))"
    and "length ds = 8 - i \<or> nat offset + i + length ds < length str"
  shows "parse_hex_loop str offset i val
           = Inr (foldl (\<lambda>v c. push_bit 4 v + word_of_nat (hex_digit c)) val ds)"
  using assms
proof (induction str offset i val arbitrary: ds rule: parse_hex_loop.induct)
  case (1 str offset i val)
  show ?case
  proof (cases "i < 8")
    case False
    with "1.prems" show ?thesis by (simp add: parse_hex_loop.simps)
  next
    case True
    let ?rest = "drop (nat offset + i) str"
    show ?thesis
    proof (cases "?rest")
      case Nil
      with "1.prems" True show ?thesis by simp
    next
      case (Cons c cs)
      then have inb: "nat offset + i < length str" 
        by (metis drop_eq_Nil2 list.distinct(1) not_le)
      have c: "str ! (nat offset + i) = c" using Cons
        by (metis inb Cons_nth_drop_Suc list.inject)
      have rdc: "rd str (int i + offset) = Inr c"
        using inb c "1.prems"(1) by (simp add: rd_def nat_add_distrib add.commute)
      have drop': "drop (nat offset + (i + 1)) str = cs"
        using Cons by (metis Cons_nth_drop_Suc inb list.inject add_Suc_right Suc_eq_plus1)
      have "8 - i = Suc (8 - (i + 1))" using True by simp
      then have tk: "take (8 - i) ?rest = c # take (8 - (i + 1)) cs"
        using Cons by simp
      show ?thesis
      proof (cases "is_hex c")
        case False
        then have "ds = []" using "1.prems"(3) tk by simp
        with False rdc True show ?thesis
          by (subst parse_hex_loop.simps) (simp add: is_hex_def)
      next
        case hx: True
        define ds' where "ds' = takeWhile is_hex (take (8 - (i + 1)) (drop (nat offset + (i + 1)) str))"
        have ds: "ds = c # ds'" using "1.prems"(3) tk hx drop' by (simp add: ds'_def)
        have len: "length ds' = 8 - (i + 1) \<or> nat offset + (i + 1) + length ds' < length str"
          using "1.prems"(4) ds True by auto
        have i8: "i + 1 \<le> 8" using True by simp
        consider (d) "in_range (CHR ''0'') (CHR ''9'') c"
          | (a) "\<not> in_range (CHR ''0'') (CHR ''9'') c" "in_range (CHR ''a'') (CHR ''f'') c"
          | (A) "\<not> in_range (CHR ''0'') (CHR ''9'') c" "\<not> in_range (CHR ''a'') (CHR ''f'') c"
                "in_range (CHR ''A'') (CHR ''F'') c"
          using hx by (auto simp: is_hex_def)
        then show ?thesis
        proof cases
          case d
          have "parse_hex_loop str offset i val
                  = parse_hex_loop str offset (i + 1) (push_bit 4 val + char_diff c (CHR ''0'') 0)"
            using True rdc d by (subst parse_hex_loop.simps) simp
          also have "\<dots> = Inr (foldl (\<lambda>v c. push_bit 4 v + word_of_nat (hex_digit c))
                              (push_bit 4 val + char_diff c (CHR ''0'') 0) ds')"
            using "1.IH"(1)[OF True rdc d "1.prems"(1) i8 ds'_def len] .
          finally show ?thesis using d by (simp add: ds hex_digit_def char_diff_def)
        next
          case a
          have "parse_hex_loop str offset i val
                  = parse_hex_loop str offset (i + 1) (push_bit 4 val + char_diff c (CHR ''a'') 10)"
            using True rdc a by (subst parse_hex_loop.simps) simp
          also have "\<dots> = Inr (foldl (\<lambda>v c. push_bit 4 v + word_of_nat (hex_digit c))
                              (push_bit 4 val + char_diff c (CHR ''a'') 10) ds')"
            using "1.IH"(2)[OF True rdc a "1.prems"(1) i8 ds'_def len] .
          finally show ?thesis using a by (simp add: ds hex_digit_def char_diff_def)
        next
          case A
          have "parse_hex_loop str offset i val
                  = parse_hex_loop str offset (i + 1) (push_bit 4 val + char_diff c (CHR ''A'') 10)"
            using True rdc A by (subst parse_hex_loop.simps) simp
          also have "\<dots> = Inr (foldl (\<lambda>v c. push_bit 4 v + word_of_nat (hex_digit c))
                              (push_bit 4 val + char_diff c (CHR ''A'') 10) ds')"
            using "1.IH"(3)[OF True rdc A "1.prems"(1) i8 ds'_def len] .
          finally show ?thesis using A by (simp add: ds hex_digit_def char_diff_def)
        qed
      qed
    qed
  qed
qed

lemma fold_nibbles:
  "foldl (\<lambda>v c. push_bit 4 v + word_of_nat (hex_digit c)) (word_of_nat n :: cint) ds
     = word_of_nat (foldl (\<lambda>n c. 16 * n + hex_digit c) n ds)"
proof (induction ds arbitrary: n)
  case Nil
  show ?case by simp
next
  case (Cons c ds)
  have "push_bit 4 (word_of_nat n :: cint) + word_of_nat (hex_digit c)
          = word_of_nat (16 * n + hex_digit c)"
    by (simp add: push_bit_eq_mult)
  then show ?case using Cons.IH [of "16 * n + hex_digit c"] by simp
qed

lemma hex_digit_less: "is_hex c \<Longrightarrow> hex_digit c < 16"
  by (auto simp: is_hex_def hex_digit_def in_range_def)

lemma sint_small:
  assumes "n < 2 ^ 31"
  shows "sint (word_of_nat n :: cint) = int n"
proof -
  have "sint (word_of_nat n :: cint) = (int n + 2 ^ 31) mod 2 ^ 32 - 2 ^ 31"
    using int_word_sint [where 'a = 32, of "int n"] by simp
  moreover have "(int n + 2 ^ 31) mod 2 ^ 32 = int n + 2 ^ 31"
    using assms by (intro mod_pos_pos_trivial) auto
  ultimately show ?thesis by simp
qed

lemma hex_value_bound_aux:
  "\<forall>c \<in> set ds. is_hex c \<Longrightarrow> foldl (\<lambda>n c. 16 * n + hex_digit c) n ds < (n + 1) * 16 ^ length ds"
proof (induction ds arbitrary: n)
  case Nil
  show ?case by simp
next
  case (Cons c ds)
  have "hex_digit c < 16" using Cons.prems by (simp add: hex_digit_less)
  then have "(16 * n + hex_digit c + 1) * 16 ^ length ds \<le> (16 * (n + 1)) * 16 ^ length ds"
    by (intro mult_le_mono1) simp
  moreover have "foldl (\<lambda>n c. 16 * n + hex_digit c) (16 * n + hex_digit c) ds
                   < (16 * n + hex_digit c + 1) * 16 ^ length ds"
    using Cons.IH [of "16 * n + hex_digit c"] Cons.prems by simp
  moreover have "(16 * (n + 1)) * 16 ^ length ds = (n + 1) * 16 ^ length (c # ds)"
    by (simp add: algebra_simps)
  ultimately show ?case by (simp only: foldl_Cons)
qed

lemma hex_value_bound: "\<forall>c \<in> set ds. is_hex c \<Longrightarrow> hex_value ds < 16 ^ length ds"
  using hex_value_bound_aux [of ds 0] by (simp add: hex_value_def)

text \<open>
  Claim C3 (as amended). \<^verbatim>\<open>parse_hex\<close> reads at most 8 characters from the offset, takes
  the contiguous hex digits \<open>ds\<close> found there and stops at the first other character; the
  nibbles are accumulated most significant first. The result is the base-16 value of \<open>ds\<close>
  reduced to the 32-bit \<^verbatim>\<open>int\<close>: it is that value itself whenever the value is below
  \<open>2 ^ 31\<close>, which holds for every prefix of at most 7 digits, and it is 0 when no hex
  digit stands at the offset.
\<close>

theorem parse_hex_value:
  assumes "0 \<le> offset"
    and "ds = takeWhile is_hex (take 8 (drop (nat offset) str))"
    and "length ds = 8 \<or> nat offset + length ds < length str"
  shows "parse_hex str offset = Inr (word_of_nat (hex_value ds))
         \<and> (hex_value ds < 2 ^ 31 \<longrightarrow> sint (word_of_nat (hex_value ds) :: cint) = int (hex_value ds))
         \<and> (length ds \<le> 7 \<longrightarrow> hex_value ds < 2 ^ 31)
         \<and> (ds = [] \<longrightarrow> parse_hex str offset = Inr 0)"
proof -
  have "parse_hex str offset
          = Inr (foldl (\<lambda>v c. push_bit 4 v + word_of_nat (hex_digit c)) 0 ds)"
    unfolding parse_hex_def using assms by (intro parse_hex_loop_fold) auto
  then have r: "parse_hex str offset = Inr (word_of_nat (hex_value ds))"
    using fold_nibbles [of 0 ds] by (simp add: hex_value_def)
  have hexds: "\<forall>c \<in> set ds. is_hex c"
    using assms(2) by (auto dest: set_takeWhileD)
  have "hex_value ds < 2 ^ 31" if "length ds \<le> 7"
  proof -
    have "(16::nat) ^ length ds \<le> 16 ^ 7" using that by (intro power_increasing) auto
    with hex_value_bound [OF hexds] show ?thesis by simp
  qed
  moreover have "parse_hex str offset = Inr 0" if "ds = []"
    using r that by (simp add: hex_value_def)
  ultimately show ?thesis using r sint_small by blast
qed

theorem parse_hex_value_witness:
  "parse_hex (''1A2B,junk'' @ [NUL]) 0 = Inr 0x1A2B \<and> sint (0x1A2B :: cint) = 0x1A2B
   \<and> hex_value ''1A2B'' = 0x1A2B
   \<and> parse_hex ('',junk'' @ [NUL]) 0 = Inr 0"
proof -
  have ds: "''1A2B'' = takeWhile is_hex (take 8 (drop (nat 0) (''1A2B,junk'' @ [NUL])))"
    by (simp add: is_hex_def in_range_def)
  have v: "hex_value ''1A2B'' = 0x1A2B"
    by (simp add: hex_value_def hex_digit_def in_range_def)
  have none: "[] = takeWhile is_hex (take 8 (drop (nat 0) ('',junk'' @ [NUL])))"
    by (simp add: is_hex_def in_range_def)
  have "parse_hex ('',junk'' @ [NUL]) 0 = Inr 0"
    using parse_hex_value [of 0 "[]" "'',junk'' @ [NUL]", OF _ none]
    by (simp add: hex_value_def)
  then show ?thesis
    using parse_hex_value [of 0 "''1A2B''" "''1A2B,junk'' @ [NUL]", OF _ ds] v by simp
qed

text \<open>
  Claim C3 as stated fails for eight digits with the top bit set: the \<^verbatim>\<open>int\<close> returned
  for \<^verbatim>\<open>80000000\<close> is negative.
\<close>

theorem parse_hex_counterexample:
  "parse_hex (''80000000'' @ [NUL]) 0 = Inr 0x80000000
   \<and> sint (0x80000000 :: cint) = - 2147483648
   \<and> int (hex_value ''80000000'') = 2147483648"
  by (simp add: parse_hex_def parse_hex_loop.simps rd_def in_range_def char_diff_def
      hex_value_def hex_digit_def)

subsection \<open>The trimmed-substring extractor\<close>

lemma pickup_loop_trim:
  assumes "0 \<le> p0" and "p0 - 1 \<le> lastp" and "lastp < int (length str)"
  shows "pickup_loop str p0 lastp
           = Inr (p0 - 1 + int (length (dropWhile isspace
                    (rev (take (nat (lastp - p0 + 1)) (drop (nat p0) str))))))"
  using assms
proof (induction str p0 lastp rule: pickup_loop.induct)
  case (1 str p0 lastp)
  show ?case
  proof (cases "lastp \<ge> p0")
    case False
    with "1.prems" have "lastp = p0 - 1" by simp
    then show ?thesis by (subst pickup_loop.simps) simp
  next
    case True
    define k where "k = nat (lastp - p0)"
    define c where "c = str ! nat lastp"
    have k: "nat (lastp - p0 + 1) = Suc k" "nat (lastp - 1 - p0 + 1) = k"
      using True by (simp_all add: k_def nat_add_distrib)
    have idx: "nat p0 + k = nat lastp" "nat lastp < length str"
      using True "1.prems" by (simp_all add: k_def nat_add_distrib [symmetric])
    have rdc: "rd str lastp = Inr c"
      using True "1.prems" by (simp add: rd_def c_def)
    have "take (Suc k) (drop (nat p0) str) = take k (drop (nat p0) str) @ [c]"
      using idx by (simp add: take_Suc_conv_app_nth c_def)
    then have rv: "rev (take (Suc k) (drop (nat p0) str)) = c # rev (take k (drop (nat p0) str))"
      by simp
    have lk: "min (length str - nat p0) k = k"
      using idx by simp
    show ?thesis
    proof (cases "isspace c")
      case False
      have "pickup_loop str p0 lastp = Inr lastp"
        using True rdc False by (subst pickup_loop.simps) simp
      moreover have "p0 - 1 + int (Suc k) = lastp" using True by (simp add: k_def)
      ultimately show ?thesis using False by (simp add: k rv lk)
    next
      case sp: True
      have "pickup_loop str p0 lastp = pickup_loop str p0 (lastp - 1)"
        using True rdc sp by (subst pickup_loop.simps) simp
      also have "\<dots> = Inr (p0 - 1 + int (length (dropWhile isspace
                    (rev (take (nat (lastp - 1 - p0 + 1)) (drop (nat p0) str))))))"
        using "1.IH" [OF True rdc] sp True "1.prems" by simp
      finally show ?thesis using sp by (simp add: k rv k_def [symmetric])
    qed
  qed
qed

lemma strn_copy_prefix:
  assumes "0 \<le> p0" and "nat p0 + n \<le> length str"
    and "NUL \<notin> set (take n (drop (nat p0) str))"
  shows "strn_copy str p0 (int n) = Inr (take n (drop (nat p0) str))"
proof -
  let ?src = "drop (nat p0) str"
  let ?s = "takeWhile (\<lambda>c. c \<noteq> NUL) ?src"
  have "?s = takeWhile (\<lambda>c. c \<noteq> NUL) (take n ?src @ drop n ?src)"
    by (simp only: append_take_drop_id)
  also have "\<dots> = take n ?src @ takeWhile (\<lambda>c. c \<noteq> NUL) (drop n ?src)"
    using assms(3) by (intro takeWhile_append2) auto
  finally have s: "?s = take n ?src @ takeWhile (\<lambda>c. c \<noteq> NUL) (drop n ?src)" .
  have ln: "length (take n ?src) = n" using assms(2) by simp
  have "n \<le> length ?s" using s ln by (metis le_add1 length_append)
  moreover have "take n ?s = take n ?src" using s ln by (metis append_eq_conv_conj)
  moreover have "\<not> int (length str) < p0" using assms by linarith
  ultimately show ?thesis using assms(1) by (simp add: strn_copy_def Let_def)
qed

text \<open>
  Claim C8. For a character array \<open>str\<close> and positions \<open>0 \<le> p0 \<le> p1\<close> inside it, with no
  terminator in the span \<open>[p0, p1)\<close>, \<^verbatim>\<open>pickup\<close> returns (when its allocation succeeds) a new
  string holding the span without its trailing whitespace: the characters from \<open>p0\<close> up to
  the last non-whitespace character before \<open>p1\<close>. Leading whitespace stays, and a span of
  whitespace only gives the empty string.
\<close>

theorem pickup_trims:
  assumes "0 \<le> p0" and "p0 \<le> p1" and "p1 \<le> int (length str)"
    and "NUL \<notin> set (take (nat (p1 - p0)) (drop (nat p0) str))"
    and "alloc_ok e (requests w)"
  shows "\<exists>w'. pickup e w str p0 p1 = Inr (Suc (requests w), w')
              \<and> get_str w' (Suc (requests w))
                  = Inr (rev (dropWhile isspace (rev (take (nat (p1 - p0)) (drop (nat p0) str)))))"
proof -
  let ?span = "take (nat (p1 - p0)) (drop (nat p0) str)"
  let ?t = "rev (dropWhile isspace (rev ?span))"
  define n where "n = length ?t"
  have span_len: "length ?span = nat (p1 - p0)" using assms by simp
  have loop: "pickup_loop str p0 (p1 - 1) = Inr (p0 - 1 + int n)"
    using pickup_loop_trim [of p0 "p1 - 1" str] assms by (simp add: n_def)
  obtain ws where ws: "rev ?span = ws @ dropWhile isspace (rev ?span)"
    by (metis takeWhile_dropWhile_id)
  then have sp: "?span = ?t @ rev ws" by (metis rev_append rev_rev_ident)
  then have tk: "take n ?span = ?t" by (metis append_eq_conv_conj n_def)
  have nle: "n \<le> nat (p1 - p0)" using sp span_len by (metis le_add1 length_append n_def)
  have tk2: "take n (drop (nat p0) str) = ?t"
    using tk nle by (simp add: min_absorb1)
  have copy: "strn_copy str p0 (int n) = Inr ?t"
  proof -
    have "NUL \<notin> set (take n (drop (nat p0) str))"
      using assms(4) sp tk2 by (metis Un_iff set_append)
    moreover have "nat p0 + n \<le> length str" using nle assms by linarith
    ultimately show ?thesis using strn_copy_prefix [of p0 n str] assms(1) tk2 by simp
  qed
  show ?thesis
    using assms(5) loop copy
    by (simp add: pickup_def strndup_def seq_def malloc_def Let_def set_block_def get_str_def)
qed

theorem pickup_trims_witness:
  "(\<exists>w'. pickup (zeroed_env no_files) world0 (''  ABC   '' @ [NUL]) 0 8 = Inr (1, w')
          \<and> get_str w' 1 = Inr ''  ABC'')
   \<and> (\<exists>w'. pickup (zeroed_env no_files) world0 (''    '' @ [NUL]) 0 4 = Inr (1, w')
          \<and> get_str w' 1 = Inr [])"
  using pickup_trims [of 0 8 "''  ABC   '' @ [NUL]" "zeroed_env no_files" world0]
    pickup_trims [of 0 4 "''    '' @ [NUL]" "zeroed_env no_files" world0]
  by (simp add: world0_def zeroed_env_def NUL_def isspace_def in_range_def)

subsection \<open>Evaluation rules\<close>

text \<open>
  Equations for the array primitives that walk the array instead of computing its length,
  so that they evaluate on an array whose tail is not spelled out.
\<close>

lemma takeWhile_shorter: "(length (takeWhile P xs) < length xs) = (dropWhile P xs \<noteq> [])"
  by (induction xs) auto

lemma list_case_const: "(case ys of [] \<Rightarrow> a | c # cs \<Rightarrow> b) = (if ys \<noteq> [] then b else a)"
  by (cases ys) simp_all

lemma drop_empty_case: "(case drop k xs of [] \<Rightarrow> True | c # cs \<Rightarrow> False) = (length xs \<le> k)"
  by (cases "drop k xs") auto

lemma rd_walk [code]:
  "rd str i =
     (if i < 0 then Inl OutOfBounds
      else case drop (nat i) str of [] \<Rightarrow> Inl OutOfBounds | c # cs \<Rightarrow> Inr c)"
proof (cases "0 \<le> i \<and> i < int (length str)")
  case True
  then have "nat i < length str" by linarith
  then have "drop (nat i) str = str ! nat i # drop (Suc (nat i)) str"
    by (simp add: Cons_nth_drop_Suc)
  with True show ?thesis by (simp add: rd_def)
next
  case False
  then have "i < 0 \<or> drop (nat i) str = []" by auto
  with False show ?thesis by (auto simp: rd_def)
qed

lemma strlen_walk [code]:
  "strlen str =
     (case dropWhile (\<lambda>c. c \<noteq> NUL) str of
        [] \<Rightarrow> Inl OutOfBounds
      | c # cs \<Rightarrow> Inr (length (takeWhile (\<lambda>c. c \<noteq> NUL) str)))"
  unfolding strlen_def Let_def takeWhile_shorter list_case_const ..

lemma strn_copy_walk [code]:
  "strn_copy str p0 n =
     (if p0 < 0 then Inl OutOfBounds
      else if 0 < p0 \<and> (case drop (nat (p0 - 1)) str of [] \<Rightarrow> True | c # cs \<Rightarrow> False)
      then Inl OutOfBounds
      else
        let size = (if n < 0 then n + 2 ^ 64 else n);
            src = drop (nat p0) str;
            s = takeWhile (\<lambda>c. c \<noteq> NUL) src
        in if size \<le> int (length s) then Inr (take (nat size) s)
           else (case dropWhile (\<lambda>c. c \<noteq> NUL) src of
                   [] \<Rightarrow> Inl OutOfBounds
                 | c # cs \<Rightarrow> Inr s))"
proof -
  have a: "(0 < p0 \<and> (case drop (nat (p0 - 1)) str of [] \<Rightarrow> True | c # cs \<Rightarrow> False))
            = (int (length str) < p0)" if "\<not> p0 < 0"
    unfolding drop_empty_case using that by auto
  have b: "(case dropWhile (\<lambda>c. c \<noteq> NUL) src of [] \<Rightarrow> Inl OutOfBounds | c # cs \<Rightarrow> Inr s)
             = (if length (takeWhile (\<lambda>c. c \<noteq> NUL) src) < length src then Inr s
                else Inl OutOfBounds)" for src s :: "char list"
    unfolding takeWhile_shorter list_case_const ..
  show ?thesis
  proof (cases "p0 < 0")
    case True
    then show ?thesis by (simp add: strn_copy_def)
  next
    case False
    show ?thesis
      unfolding b Let_def using False a [OF False] by (simp add: strn_copy_def Let_def)
  qed
qed

lemma inbuf0_split: "inbuf0 = replicate 96 NUL @ replicate 928 NUL"
  by (simp add: inbuf0_def INSIZE_def flip: replicate_add)

subsection \<open>The type category and the description table\<close>

lemma type_category_run:
  "case planedb_init
          (zeroed_env (two_files
             (Some (acftref_line ''1200119'' ''CESSNA'' ''172'' ''12,01,1,0,01,004''))
             (Some [])))
          world0 (replicate 96 NUL @ tail) of
     Some (Inr (db, w, buf)) \<Rightarrow>
       db = 1 \<and> map_sum id types (get_db w db) = Inr 2
       \<and> map_sum id (\<lambda>t. sint (ti_type t)) (get_type w 2) = Inr 12
       \<and> typeInfoPrint w 2 = Inl OutOfBounds
   | _ \<Rightarrow> False"
  by code_simp

text \<open>
  Claim C7 fails on the code. The type category is whatever \<^verbatim>\<open>parse_int\<close> reads at offset 60,
  up to ten digits: a line with \<^verbatim>\<open>12\<close> there gives a record of type 12, and \<^verbatim>\<open>typeInfoPrint\<close>
  on that record reads \<^verbatim>\<open>typeTable[12]\<close>, outside the ten-entry table.
\<close>

theorem type_category_outside_table:
  "case planedb_init
          (zeroed_env (two_files
             (Some (acftref_line ''1200119'' ''CESSNA'' ''172'' ''12,01,1,0,01,004''))
             (Some [])))
          world0 inbuf0 of
     Some (Inr (db, w, buf)) \<Rightarrow>
       db = 1 \<and> map_sum id types (get_db w db) = Inr 2
       \<and> map_sum id (\<lambda>t. sint (ti_type t)) (get_type w 2) = Inr 12
       \<and> typeInfoPrint w 2 = Inl OutOfBounds
   | _ \<Rightarrow> False"
  unfolding inbuf0_split by (rule type_category_run)

subsection \<open>The seat count of a short line\<close>

lemma seats_run:
  "case planedb_init
          (zeroed_env (two_files
             (Some (acftref_line ''1200119'' ''CESSNA'' ''172'' ''4,01,1,0,01,004,CLASS 1''
                    @ acftref_line ''1200120'' ''CESSNA'' ''172A'' ''4,01,1,0,''))
             (Some [])))
          world0 (replicate 96 NUL @ tail) of
     Some (Inr (db, w, buf)) \<Rightarrow>
       db = 1
       \<and> map_sum id (\<lambda>t. (sint (ti_id t), sint (ti_nrseats t))) (get_type w 2) = Inr (1200119, 4)
       \<and> map_sum id (\<lambda>t. (sint (ti_id t), sint (ti_nrseats t))) (get_type w 5) = Inr (1200120, 4)
   | _ \<Rightarrow> False"
  by code_simp

text \<open>
  Claim C6 fails on the code. A line of 68 to 72 bytes is accepted, and \<^verbatim>\<open>parse_int(str, 72)\<close>
  then reads behind the line's terminator, where the static buffer still holds the previous
  line: the second record below, from a 70-byte line with nothing at offset 72, gets the
  seat count 4 of the first line instead of 0.
\<close>

theorem seats_of_short_line_stale:
  "length (acftref_line ''1200120'' ''CESSNA'' ''172A'' ''4,01,1,0,'') = 70
   \<and> (case planedb_init
          (zeroed_env (two_files
             (Some (acftref_line ''1200119'' ''CESSNA'' ''172'' ''4,01,1,0,01,004,CLASS 1''
                    @ acftref_line ''1200120'' ''CESSNA'' ''172A'' ''4,01,1,0,''))
             (Some [])))
          world0 inbuf0 of
     Some (Inr (db, w, buf)) \<Rightarrow>
       db = 1
       \<and> map_sum id (\<lambda>t. (sint (ti_id t), sint (ti_nrseats t))) (get_type w 2) = Inr (1200119, 4)
       \<and> map_sum id (\<lambda>t. (sint (ti_id t), sint (ti_nrseats t))) (get_type w 5) = Inr (1200120, 4)
   | _ \<Rightarrow> False)"
  unfolding inbuf0_split by (rule conjI, code_simp, rule seats_run)

subsection \<open>Construction and teardown\<close>

text \<open>
  \<^verbatim>\<open>planedb_init\<close> returns a context only when \<^verbatim>\<open>load_types\<close> and then \<^verbatim>\<open>load_planes\<close>, in this
  order, have both returned success.
\<close>

lemma planedb_init_ready:
  assumes "planedb_init e w buf = Some (Inr (db, w', buf'))" and "db \<noteq> 0"
  shows "\<exists>w1 w2 w3 buf3.
           malloc e w = (db, w1)
           \<and> w2 = set_block w1 db (DbBlock
                      \<lparr>types = 0, last_model = junk_last_model e, last_ti = junk_last_ti e,
                       planes = 0, last_icao = junk_last_icao e, last_pi = junk_last_pi e\<rparr>)
           \<and> load_types e w2 buf db = Inr (True, w3, buf3)
           \<and> load_planes e w3 buf3 db = Inr (True, w', buf')"
  using assms
  by (auto simp: planedb_init_def Let_def
      split: prod.splits if_splits sum.splits option.splits)

lemma init_failure_run:
  "case planedb_init
          ((zeroed_env (two_files
             (Some (acftref_line ''1200119'' ''CESSNA'' ''172'' ''4,01,1,0,01,004''))
             (Some [])))
           \<lparr>alloc_ok := (\<lambda>n. n \<noteq> 2)\<rparr>)
          world0 (replicate 96 NUL @ tail) of
     Some (Inr (db, w, buf)) \<Rightarrow>
       db = 0 \<and> heap w 1 = None
       \<and> map_sum id (\<lambda>t. sint (ti_id t)) (get_type w 2) = Inr 1200119
       \<and> open_files w = 1
   | _ \<Rightarrow> False"
  by code_simp

text \<open>
  Claim C5 fails on the code. When \<^verbatim>\<open>strndup\<close> fails inside \<^verbatim>\<open>pickup\<close>, \<^verbatim>\<open>load_types\<close> returns
  at once: \<^verbatim>\<open>planedb_init\<close> returns \<^verbatim>\<open>NULL\<close> and frees the context (address 1), but the
  \<^verbatim>\<open>TypeInfo\<close> just allocated (address 2) is linked nowhere and stays allocated, and the file
  stays open.
\<close>

theorem init_failure_leaks:
  "case planedb_init
          ((zeroed_env (two_files
             (Some (acftref_line ''1200119'' ''CESSNA'' ''172'' ''4,01,1,0,01,004''))
             (Some [])))
           \<lparr>alloc_ok := (\<lambda>n. n \<noteq> 2)\<rparr>)
          world0 inbuf0 of
     Some (Inr (db, w, buf)) \<Rightarrow>
       db = 0 \<and> heap w 1 = None
       \<and> map_sum id (\<lambda>t. sint (ti_id t)) (get_type w 2) = Inr 1200119
       \<and> open_files w = 1
   | _ \<Rightarrow> False"
  unfolding inbuf0_split by (rule init_failure_run)

lemma close_run:
  "map_option (map_sum id fst)
      (planedb_init
          ((zeroed_env (two_files
             (Some (acftref_line ''1200119'' ''CESSNA'' ''172'' ''4,01,1,0,01,004''))
             None))
           \<lparr>junk_next := (\<lambda>a. 9)\<rparr>)
          world0 (replicate 96 NUL @ tail))
     = Some (Inl InvalidPointer)"
  by code_simp

text \<open>
  Claim C9 fails on the code. No loader ever writes the \<^verbatim>\<open>next\<close> field of the last record of
  a list. With one type record loaded and \<^verbatim>\<open>MASTER.txt\<close> missing, \<^verbatim>\<open>planedb_init\<close> closes the
  context; where the fresh block held a non-zero value in \<^verbatim>\<open>next\<close>, the loop of
  \<^verbatim>\<open>planedb_close\<close> follows it and reads through a pointer to no object. Closing a null
  context does nothing.
\<close>

theorem close_follows_unset_next:
  "map_option (map_sum id fst)
      (planedb_init
          ((zeroed_env (two_files
             (Some (acftref_line ''1200119'' ''CESSNA'' ''172'' ''4,01,1,0,01,004''))
             None))
           \<lparr>junk_next := (\<lambda>a. 9)\<rparr>)
          world0 inbuf0)
     = Some (Inl InvalidPointer)
   \<and> planedb_close w 0 = Some (Inr (False, w))"
  unfolding inbuf0_split by (rule conjI, rule close_run, simp add: planedb_close_def)

subsection \<open>Lookups and the cache\<close>

lemma header_run:
  "case planedb_init (zeroed_env (two_files (Some acftref_header) (Some [])))
          world0 (replicate 96 NUL @ tail) of
     Some (Inr (db, w, buf)) \<Rightarrow>
       db = 1
       \<and> map_sum id types (get_db w db) = Inr 2
       \<and> map_sum id (\<lambda>t. sint (ti_id t)) (get_type w 2) = Inr 0
       \<and> found (type_lookup w db 0) = Some (Inr 0)
       \<and> found (type_lookup_loop w db 0 2) = Some (Inr 2)
   | _ \<Rightarrow> False"
  by code_simp

lemma junk_cache_run:
  "case planedb_init
          ((zeroed_env (two_files (Some []) (Some [])))
           \<lparr>junk_last_model := 7, junk_last_ti := 9, junk_last_icao := 0xABC, junk_last_pi := 9\<rparr>)
          world0 (replicate 96 NUL @ tail) of
     Some (Inr (db, w, buf)) \<Rightarrow>
       db = 1
       \<and> map_sum id (\<lambda>d. (types d, planes d)) (get_db w db) = Inr (0, 0)
       \<and> found (planedb_lookup w db (Some (''ABC'' @ [NUL]))) = Some (Inr 9)
       \<and> found (planedb_lookup_loop w db 0xABC 0) = Some (Inr 0)
       \<and> found (type_lookup w db 7) = Some (Inr 9)
       \<and> heap w 9 = None
   | _ \<Rightarrow> False"
  by code_simp

lemma junk_next_run:
  "case planedb_init
          ((zeroed_env (two_files
             (Some (acftref_line ''1200119'' ''CESSNA'' ''172'' ''4,01,1,0,01,004''))
             (Some [])))
           \<lparr>junk_next := (\<lambda>a. 9)\<rparr>)
          world0 (replicate 96 NUL @ tail) of
     Some (Inr (db, w, buf)) \<Rightarrow>
       db = 1
       \<and> map_sum id types (get_db w db) = Inr 2
       \<and> map_sum id (\<lambda>t. (sint (ti_id t), ti_next t)) (get_type w 2) = Inr (1200119, 9)
       \<and> found (type_lookup w db 5) = Some (Inl InvalidPointer)
   | _ \<Rightarrow> False"
  by code_simp

text \<open>
  Claim C1 fails on the code. \<^verbatim>\<open>planedb_init\<close> never writes the four cache fields, so the
  cache of a fresh context holds whatever the block held, not the last successful lookup.
  Even where the block was zero-filled the first lookup is answered from it: the FAA header
  line of \<^verbatim>\<open>ACFTREF.txt\<close> is loaded as a record with id 0 (address 2), the scan for 0 finds
  it, and \<^verbatim>\<open>type_lookup\<close> for 0 returns \<^verbatim>\<open>NULL\<close>. Where the block held other bytes, the first
  \<^verbatim>\<open>planedb_lookup\<close> of the key found there returns the pointer found there, on an empty
  index.
\<close>

theorem fresh_cache_answers_lookup:
  "(case planedb_init (zeroed_env (two_files (Some acftref_header) (Some []))) world0 inbuf0 of
      Some (Inr (db, w, buf)) \<Rightarrow>
        db = 1
        \<and> map_sum id types (get_db w db) = Inr 2
        \<and> map_sum id (\<lambda>t. sint (ti_id t)) (get_type w 2) = Inr 0
        \<and> found (type_lookup w db 0) = Some (Inr 0)
        \<and> found (type_lookup_loop w db 0 2) = Some (Inr 2)
    | _ \<Rightarrow> False)
   \<and> (case planedb_init
          ((zeroed_env (two_files (Some []) (Some [])))
           \<lparr>junk_last_model := 7, junk_last_ti := 9, junk_last_icao := 0xABC, junk_last_pi := 9\<rparr>)
          world0 inbuf0 of
      Some (Inr (db, w, buf)) \<Rightarrow>
        db = 1
        \<and> map_sum id (\<lambda>d. (types d, planes d)) (get_db w db) = Inr (0, 0)
        \<and> found (planedb_lookup w db (Some (''ABC'' @ [NUL]))) = Some (Inr 9)
        \<and> found (planedb_lookup_loop w db 0xABC 0) = Some (Inr 0)
        \<and> found (type_lookup w db 7) = Some (Inr 9)
        \<and> heap w 9 = None
    | _ \<Rightarrow> False)"
  unfolding inbuf0_split by (rule conjI, rule header_run, rule junk_cache_run)

text \<open>
  Claim C2 fails on the code. A loaded record is not found when its id is the value the
  fresh cache holds: the record with id 0 below (the header line) is loaded at address 2 and
  \<^verbatim>\<open>type_lookup\<close> for 0 returns \<^verbatim>\<open>NULL\<close>. A lookup of an id that occurs in no record does not
  return \<^verbatim>\<open>NULL\<close> either when the \<^verbatim>\<open>next\<close> field of the last record, which no loader writes,
  is not zero: the scan reads through it.
\<close>

theorem loaded_record_not_found:
  "(case planedb_init (zeroed_env (two_files (Some acftref_header) (Some []))) world0 inbuf0 of
      Some (Inr (db, w, buf)) \<Rightarrow>
        db = 1
        \<and> map_sum id types (get_db w db) = Inr 2
        \<and> map_sum id (\<lambda>t. sint (ti_id t)) (get_type w 2) = Inr 0
        \<and> found (type_lookup w db 0) = Some (Inr 0)
    | _ \<Rightarrow> False)
   \<and> (case planedb_init
          ((zeroed_env (two_files
             (Some (acftref_line ''1200119'' ''CESSNA'' ''172'' ''4,01,1,0,01,004''))
             (Some [])))
           \<lparr>junk_next := (\<lambda>a. 9)\<rparr>)
          world0 inbuf0 of
      Some (Inr (db, w, buf)) \<Rightarrow>
        db = 1
        \<and> map_sum id types (get_db w db) = Inr 2
        \<and> map_sum id (\<lambda>t. (sint (ti_id t), ti_next t)) (get_type w 2) = Inr (1200119, 9)
        \<and> found (type_lookup w db 5) = Some (Inl InvalidPointer)
    | _ \<Rightarrow> False)"
proof -
  have "case planedb_init (zeroed_env (two_files (Some acftref_header) (Some [])))
            world0 (replicate 96 NUL @ replicate 928 NUL) of
          Some (Inr (db, w, buf)) \<Rightarrow>
            db = 1
            \<and> map_sum id types (get_db w db) = Inr 2
            \<and> map_sum id (\<lambda>t. sint (ti_id t)) (get_type w 2) = Inr 0
            \<and> found (type_lookup w db 0) = Some (Inr 0)
        | _ \<Rightarrow> False"
    using header_run [of "replicate 928 NUL"]
    by (auto split: option.splits sum.splits)
  then show ?thesis
    unfolding inbuf0_split by (rule conjI) (rule junk_next_run)
qed

subsection \<open>The scan returns the first match\<close>

lemma type_scan_skip:
  assumes "type_path w p as q" and "\<forall>a \<in> set as. type_id_at w a \<noteq> Some k"
  shows "type_lookup_loop w db k p = type_lookup_loop w db k q"
  using assms
proof (induction as arbitrary: p)
  case Nil
  then show ?case by simp
next
  case (Cons a as)
  from Cons.prems(1) obtain t where t: "p = a" "a \<noteq> 0" "get_type w a = Inr t"
    "type_path w (ti_next t) as q"
    by (auto split: sum.splits)
  from Cons.prems(2) t have ne: "ti_id t \<noteq> k" by (simp add: type_id_at_def)
  have "type_lookup_loop w db k p = type_lookup_loop w db k (ti_next t)"
    using t ne by (subst type_lookup_loop.simps) simp
  also have "\<dots> = type_lookup_loop w db k q"
    using Cons.IH [OF t(4)] Cons.prems(2) by simp
  finally show ?case .
qed

lemma type_scan_hit:
  assumes "a \<noteq> 0" and "type_id_at w a = Some k" and "get_db w db = Inr d"
  shows "type_lookup_loop w db k a
           = Some (Inr (a, set_block w db (DbBlock (d\<lparr>last_model := k, last_ti := a\<rparr>))))"
  using assms
  by (subst type_lookup_loop.simps)
     (auto simp: type_id_at_def upd_db_def seq_def split: sum.splits)

lemma type_path_append:
  "type_path w p (as @ bs) q = (\<exists>r. type_path w p as r \<and> type_path w r bs q)"
  by (induction as arbitrary: p) (auto split: sum.splits)

lemma plane_scan_skip:
  assumes "plane_path w p as q" and "\<forall>a \<in> set as. plane_id_at w a \<noteq> Some k"
  shows "planedb_lookup_loop w db k p = planedb_lookup_loop w db k q"
  using assms
proof (induction as arbitrary: p)
  case Nil
  then show ?case by simp
next
  case (Cons a as)
  from Cons.prems(1) obtain t where t: "p = a" "a \<noteq> 0" "get_plane w a = Inr t"
    "plane_path w (pi_next t) as q"
    by (auto split: sum.splits)
  from Cons.prems(2) t have ne: "pi_id t \<noteq> k" by (simp add: plane_id_at_def)
  have "planedb_lookup_loop w db k p = planedb_lookup_loop w db k (pi_next t)"
    using t ne by (subst planedb_lookup_loop.simps) simp
  also have "\<dots> = planedb_lookup_loop w db k q"
    using Cons.IH [OF t(4)] Cons.prems(2) by simp
  finally show ?case .
qed

lemma plane_scan_hit:
  assumes "a \<noteq> 0" and "plane_id_at w a = Some k" and "get_db w db = Inr d"
  shows "planedb_lookup_loop w db k a
           = Some (Inr (a, set_block w db (DbBlock (d\<lparr>last_icao := k, last_pi := a\<rparr>))))"
  using assms
  by (subst planedb_lookup_loop.simps)
     (auto simp: plane_id_at_def upd_db_def seq_def split: sum.splits)

lemma plane_path_append:
  "plane_path w p (as @ bs) q = (\<exists>r. plane_path w p as r \<and> plane_path w r bs q)"
  by (induction as arbitrary: p) (auto split: sum.splits)

text \<open>
  A lookup of an id that no record has, on a list that ends in \<^verbatim>\<open>NULL\<close> and with another key in
  the cache, returns \<^verbatim>\<open>NULL\<close> and leaves the state as it is.
\<close>

lemma type_lookup_miss:
  assumes "get_db w db = Inr d" and "type_path w (types d) as 0"
    and "\<forall>a \<in> set as. type_id_at w a \<noteq> Some k" and "k \<noteq> last_model d"
  shows "type_lookup w db k = Some (Inr (0, w))"
proof -
  have "type_lookup w db k = type_lookup_loop w db k (types d)"
    using assms(1,4) by (simp add: type_lookup_def)
  also have "\<dots> = type_lookup_loop w db k 0"
    using type_scan_skip [OF assms(2,3)] .
  also have "\<dots> = Some (Inr (0, w))"
    by (subst type_lookup_loop.simps) simp
  finally show ?thesis .
qed

lemma planedb_lookup_miss:
  assumes "db \<noteq> 0" and "get_db w db = Inr d" and "plane_path w (planes d) as 0"
    and "\<forall>a \<in> set as. plane_id_at w a \<noteq> Some k"
    and "parse_hex icao 0 = Inr k" and "k \<noteq> last_icao d"
  shows "planedb_lookup w db (Some icao) = Some (Inr (0, w))"
proof -
  have "planedb_lookup w db (Some icao) = planedb_lookup_loop w db k (planes d)"
    using assms(1,2,5,6) by (simp add: planedb_lookup_def)
  also have "\<dots> = planedb_lookup_loop w db k 0"
    using plane_scan_skip [OF assms(3,4)] .
  also have "\<dots> = Some (Inr (0, w))"
    by (subst planedb_lookup_loop.simps) simp
  finally show ?thesis .
qed

text \<open>
  Let the list of an index hold, in the order of linking, the records \<open>pre\<close>, then \<open>a\<close>, then
  \<open>post\<close>, where \<open>a\<close> has the id \<open>k\<close> and no record of \<open>pre\<close> has. Then a lookup of \<open>k\<close> that is not
  answered by the cache returns \<open>a\<close> and records it in the cache, whatever ids the records of
  \<open>post\<close> have.
\<close>

lemma scan_first_match:
  "(get_db w db = Inr d \<and> type_path w (types d) (pre @ a # post) q
      \<and> type_id_at w a = Some k \<and> (\<forall>b \<in> set pre. type_id_at w b \<noteq> Some k)
      \<and> k \<noteq> last_model d
    \<longrightarrow> type_lookup w db k
          = Some (Inr (a, set_block w db (DbBlock (d\<lparr>last_model := k, last_ti := a\<rparr>)))))
   \<and> (db \<noteq> 0 \<and> get_db w db = Inr d \<and> plane_path w (planes d) (pre @ a # post) q
      \<and> plane_id_at w a = Some k \<and> (\<forall>b \<in> set pre. plane_id_at w b \<noteq> Some k)
      \<and> parse_hex icao 0 = Inr k \<and> k \<noteq> last_icao d
    \<longrightarrow> planedb_lookup w db (Some icao)
          = Some (Inr (a, set_block w db (DbBlock (d\<lparr>last_icao := k, last_pi := a\<rparr>)))))"
proof (intro conjI impI)
  assume h: "get_db w db = Inr d \<and> type_path w (types d) (pre @ a # post) q
      \<and> type_id_at w a = Some k \<and> (\<forall>b \<in> set pre. type_id_at w b \<noteq> Some k)
      \<and> k \<noteq> last_model d"
  then obtain r where r: "type_path w (types d) pre r" "type_path w r (a # post) q"
    by (auto simp: type_path_append)
  then have ra: "r = a" "a \<noteq> 0" by (auto split: sum.splits)
  have "type_lookup w db k = type_lookup_loop w db k (types d)"
    using h by (simp add: type_lookup_def)
  also have "\<dots> = type_lookup_loop w db k a"
    using type_scan_skip [OF r(1)] h ra by simp
  finally show "type_lookup w db k
          = Some (Inr (a, set_block w db (DbBlock (d\<lparr>last_model := k, last_ti := a\<rparr>))))"
    using type_scan_hit [OF ra(2)] h by simp
next
  assume h: "db \<noteq> 0 \<and> get_db w db = Inr d \<and> plane_path w (planes d) (pre @ a # post) q
      \<and> plane_id_at w a = Some k \<and> (\<forall>b \<in> set pre. plane_id_at w b \<noteq> Some k)
      \<and> parse_hex icao 0 = Inr k \<and> k \<noteq> last_icao d"
  then obtain r where r: "plane_path w (planes d) pre r" "plane_path w r (a # post) q"
    by (auto simp: plane_path_append)
  then have ra: "r = a" "a \<noteq> 0" by (auto split: sum.splits)
  have dbn: "db \<noteq> 0" using h by simp
  have "planedb_lookup w db (Some icao) = planedb_lookup_loop w db k (planes d)"
    using h dbn by (simp add: planedb_lookup_def)
  also have "\<dots> = planedb_lookup_loop w db k a"
    using plane_scan_skip [OF r(1)] h ra by simp
  finally show "planedb_lookup w db (Some icao)
          = Some (Inr (a, set_block w db (DbBlock (d\<lparr>last_icao := k, last_pi := a\<rparr>))))"
    using plane_scan_hit [OF ra(2)] h by simp
qed

lemma stale_cache_run:
  "case planedb_init
          ((zeroed_env (two_files (Some duplicate_type_lines) (Some [])))
           \<lparr>junk_last_model := 1200119, junk_last_ti := 8\<rparr>)
          world0 (replicate 96 NUL @ tail) of
     Some (Inr (db, w, buf)) \<Rightarrow>
       db = 1
       \<and> map_sum id types (get_db w db) = Inr 2
       \<and> type_path w 2 [2, 5, 8] 0
       \<and> type_id_at w 2 = Some 1200118
       \<and> type_id_at w 5 = Some 1200119 \<and> model_name_at w 5 = Inr ''172''
       \<and> type_id_at w 8 = Some 1200119 \<and> model_name_at w 8 = Inr ''172 DUPLICATE''
       \<and> found (type_lookup_loop w db 1200119 2) = Some (Inr 5)
       \<and> found (type_lookup w db 1200119) = Some (Inr 8)
   | _ \<Rightarrow> False"
  by code_simp

text \<open>
  Claim C10 fails on the code. A lookup that scans does return the first record with the
  id, as the lemma above shows. But \<^verbatim>\<open>planedb_init\<close> never writes the cache fields, so a lookup
  can be answered by what the fresh block held: below, the type file has three lines, the
  second and the third with the id 1200119, loaded in file order at the addresses 2, 5 and 8;
  the block held that id and the address 8, and the first \<^verbatim>\<open>type_lookup\<close> of the id returns the
  record of the third line, where the scan finds the record of the second.
\<close>

theorem later_duplicate_returned:
  "case planedb_init
          ((zeroed_env (two_files (Some duplicate_type_lines) (Some [])))
           \<lparr>junk_last_model := 1200119, junk_last_ti := 8\<rparr>)
          world0 inbuf0 of
     Some (Inr (db, w, buf)) \<Rightarrow>
       db = 1
       \<and> map_sum id types (get_db w db) = Inr 2
       \<and> type_path w 2 [2, 5, 8] 0
       \<and> type_id_at w 2 = Some 1200118
       \<and> type_id_at w 5 = Some 1200119 \<and> model_name_at w 5 = Inr ''172''
       \<and> type_id_at w 8 = Some 1200119 \<and> model_name_at w 8 = Inr ''172 DUPLICATE''
       \<and> found (type_lookup_loop w db 1200119 2) = Some (Inr 5)
       \<and> found (type_lookup w db 1200119) = Some (Inr 8)
   | _ \<Rightarrow> False"
  unfolding inbuf0_split by (rule stale_cache_run)

subsection \<open>The loaders and short lines\<close>

lemma pickup_effect:
  assumes "pickup e w str p0 p1 = Inr (m, w')"
  shows "requests w' = Suc (requests w)
         \<and> (m = 0 \<and> heap w' = heap w
             \<or> m = Suc (requests w) \<and> (\<exists>s. heap w' = (heap w)(m \<mapsto> StrBlock s)))"
  using assms
  by (auto simp: pickup_def strndup_def seq_def malloc_def Let_def set_block_def
      split: sum.splits if_splits)


lemma seq_Inr: "seq m f = Inr r \<longleftrightarrow> (\<exists>x. m = Inr x \<and> f x = Inr r)"
  by (cases m) (auto simp: seq_def)

lemma upd_db_effect:
  assumes "upd_db w p f = Inr w'"
  shows "\<exists>d. get_db w p = Inr d \<and> heap w' = (heap w)(p \<mapsto> DbBlock (f d))
              \<and> requests w' = requests w"
  using assms
  by (auto simp: upd_db_def seq_def set_block_def split: sum.splits)

lemma get_db_heap: "get_db w p = Inr d \<longleftrightarrow> heap w p = Some (DbBlock d)"
  by (auto simp: get_db_def split: option.splits block.splits)

lemma seq_left: "seq (Inr x) f = f x" "seq (Inl y) f = Inl y"
  by (simp_all add: seq_def)

lemma seqE:
  assumes "seq m f = Inr r"
  obtains x where "m = Inr x" and "f x = Inr r"
  using assms by (auto simp: seq_Inr)

lemma read_line_stops:
  "read_line n cs = cs \<or> length (read_line n cs) = n
   \<or> (read_line n cs \<noteq> [] \<and> last (read_line n cs) = newline)"
  by (induction n cs rule: read_line.induct) auto

lemma takeWhile_stop: "\<not> P y \<Longrightarrow> takeWhile P (xs @ y # ys) = takeWhile P xs"
  by (induction xs) auto

lemma strlen_line: "strlen (l @ NUL # rest) = Inr (c_strlen l)"
proof -
  have "length (takeWhile (\<lambda>c. c \<noteq> NUL) l) \<le> length l" by (rule length_takeWhile_le)
  then show ?thesis by (simp add: strlen_def c_strlen_def takeWhile_stop)
qed

lemma fgets_cases:
  assumes "fgets buf INSIZE f = (str, buf1, f1)" and "at_eof f \<longrightarrow> content f = []"
  shows "(at_eof f1 \<longrightarrow> content f1 = [])
         \<and> (if str then \<exists>l. content f \<noteq> [] \<and> l = read_line (INSIZE - 1) (content f)
                          \<and> strlen buf1 = Inr (c_strlen l)
                          \<and> content f1 = drop (length l) (content f)
            else content f = [] \<and> content f1 = [] \<and> at_eof f1)"
proof (cases "read_line (INSIZE - 1) (content f) = []")
  case True
  have "INSIZE - 1 = Suc 1022" by (simp add: INSIZE_def)
  then have "content f = []"
    using True by (cases "content f") (simp_all only: read_line.simps split: if_splits, simp_all)
  with assms True show ?thesis by (auto simp: fgets_def Let_def)
next
  case False
  let ?l = "read_line (INSIZE - 1) (content f)"
  have ne: "content f \<noteq> []" using False by (cases "INSIZE - 1") auto
  have "drop (length ?l) (content f) = []" if "length ?l < INSIZE - 1" "last ?l \<noteq> newline"
    using read_line_stops [of "INSIZE - 1" "content f"] that False by auto
  with assms False ne show ?thesis
    by (auto simp: fgets_def Let_def strlen_line)
qed

lemma file_lines_Nil: "file_lines [] = []"
  by (simp add: file_lines.simps)

lemma file_lines_step:
  "cs \<noteq> [] \<Longrightarrow> file_lines cs
     = read_line (INSIZE - 1) cs # file_lines (drop (length (read_line (INSIZE - 1) cs)) cs)"
  by (subst file_lines.simps) (simp add: Let_def)

lemma load_types_line_return:
  "load_types_line e w str db prev = Inr (Return b w2) \<Longrightarrow> b = False"
  by (auto simp: load_types_line_def seq_def Let_def split: sum.splits prod.splits if_splits)

lemma load_types_line_skip:
  assumes "load_types_line e w str db prev = Inr (Continue w2 prev2)"
    and "strlen str = Inr n" and "n < 68"
  shows "w2 = w \<and> prev2 = prev"
  using assms by (simp add: load_types_line_def seq_def)

lemma upd_type_effect:
  assumes "upd_type w p f = Inr w'"
  shows "\<exists>t. get_type w p = Inr t \<and> heap w' = (heap w)(p \<mapsto> TypeBlock (f t))
              \<and> requests w' = requests w"
  using assms
  by (auto simp: upd_type_def seq_def set_block_def split: sum.splits)

lemma get_type_heap: "get_type w p = Inr t \<longleftrightarrow> heap w p = Some (TypeBlock t)"
  by (auto simp: get_type_def split: option.splits block.splits)

lemma load_types_line_accept:
  assumes run: "load_types_line e w str db prev = Inr (Continue w2 prev2)"
    and len: "strlen str = Inr n" "\<not> n < 68"
    and bounded: "heap_bounded w"
    and db: "get_db w db = Inr d"
    and prev: "prev = 0 \<or> (\<exists>t. get_type w prev = Inr t)"
  shows "prev2 = Suc (requests w) \<and> heap_bounded w2 \<and> requests w \<le> requests w2
         \<and> (\<exists>t2. get_type w2 prev2 = Inr t2 \<and> ti_next t2 = junk_next e prev2)
         \<and> (\<forall>a. a \<le> requests w \<longrightarrow> a \<noteq> prev \<longrightarrow> a \<noteq> db \<longrightarrow> heap w2 a = heap w a)
         \<and> (if prev = 0 then get_db w2 db = Inr (d\<lparr>types := prev2\<rparr>)
             else heap w2 db = heap w db
                  \<and> (\<exists>t. get_type w prev = Inr t \<and> get_type w2 prev = Inr (t\<lparr>ti_next := prev2\<rparr>)))"
proof -
  define ti where "ti = Suc (requests w)"
  define t0 where "t0 = \<lparr>ti_next = junk_next e ti, ti_id = 0, ti_manufacturer = 0, ti_model = 0,
                  ti_type = 0, ti_nrseats = 0\<rparr>"
  have dbh: "heap w db = Some (DbBlock d)" using db by (simp add: get_db_heap)
  then have dbb: "0 < db" "db \<le> requests w" using bounded by (auto simp: heap_bounded_def)
  have prevb: "prev \<le> requests w"
    using prev bounded by (auto simp: heap_bounded_def get_type_heap)
  have prevdb: "prev \<noteq> db" using prev dbh dbb by (auto simp: get_type_heap)
  from run len obtain w1 where c: "typeInfoCreate e w = (ti, w1)" "ti \<noteq> 0"
    by (auto simp: load_types_line_def seq_def Let_def typeInfoCreate_def malloc_def ti_def
        split: sum.splits prod.splits if_splits)
  then have w1: "heap w1 = (heap w)(ti \<mapsto> TypeBlock t0)" "requests w1 = Suc (requests w)"
    by (auto simp: typeInfoCreate_def malloc_def Let_def set_block_def t0_def ti_def
        split: if_splits)
  define link where "link = (\<lambda>w8. if prev \<noteq> 0 then upd_type w8 prev (\<lambda>t. t\<lparr>ti_next := ti\<rparr>)
              else upd_db w8 db (\<lambda>d. d\<lparr>types := ti\<rparr>))"
  from run len c have body:
    "seq (parse_int str 0) (\<lambda>v.
     seq (upd_type w1 ti (\<lambda>t. t\<lparr>ti_id := v\<rparr>)) (\<lambda>w2.
     seq (pickup e w2 str 8 38) (\<lambda>(m, w3).
     seq (upd_type w3 ti (\<lambda>t. t\<lparr>ti_manufacturer := m\<rparr>)) (\<lambda>w4.
     if m = 0 then Inr (Return False w4)
     else
       seq (pickup e w4 str 39 59) (\<lambda>(m', w5).
       seq (upd_type w5 ti (\<lambda>t. t\<lparr>ti_model := m'\<rparr>)) (\<lambda>w6.
       if m' = 0 then Inr (Return False w6)
       else
         seq (parse_int str 60) (\<lambda>v'.
         seq (upd_type w6 ti (\<lambda>t. t\<lparr>ti_type := v'\<rparr>)) (\<lambda>w7.
         seq (parse_int str 72) (\<lambda>v''.
         seq (upd_type w7 ti (\<lambda>t. t\<lparr>ti_nrseats := v''\<rparr>)) (\<lambda>w8.
         seq (link w8) (\<lambda>w9.
         Inr (Continue w9 ti)))))))))))) = Inr (Continue w2 prev2)"
    by (simp only: load_types_line_def len seq_left if_False Let_def c prod.case link_def)
  have "\<exists>w8. link w8 = Inr w2 \<and> heap_bounded w8 \<and> requests w \<le> requests w8 \<and> prev2 = ti
          \<and> (\<exists>t8. heap w8 ti = Some (TypeBlock t8) \<and> ti_next t8 = junk_next e ti)
          \<and> (\<forall>a. a \<le> requests w \<longrightarrow> heap w8 a = heap w a)"
    using body w1 bounded
    apply (elim seqE)
    apply (clarsimp split: if_splits)
    apply (elim seqE)
    apply (clarsimp split: if_splits)
    apply (elim seqE)
    apply (clarsimp split: if_splits)
    apply (elim seqE)
    apply (clarsimp split: if_splits)
    apply (elim seqE)
    apply (clarsimp split: if_splits)
    apply (drule upd_type_effect pickup_effect)+
    apply (clarsimp simp: get_type_heap ti_def)
    apply (rule exI, rule conjI, assumption)
    apply (auto simp: heap_bounded_def t0_def ti_def)
    done
  then obtain w8 t8 where w8: "link w8 = Inr w2" "heap_bounded w8" "requests w \<le> requests w8"
    "prev2 = ti" "heap w8 ti = Some (TypeBlock t8)" "ti_next t8 = junk_next e ti"
    "\<forall>a. a \<le> requests w \<longrightarrow> heap w8 a = heap w a"
    by blast
  have tib: "requests w < ti" "ti \<noteq> db" "ti \<noteq> prev" "0 < ti"
    using dbb prevb by (auto simp: ti_def)
  have fin: "heap_bounded w2 \<and> requests w \<le> requests w2
         \<and> (\<exists>t2. get_type w2 ti = Inr t2 \<and> ti_next t2 = junk_next e ti)
         \<and> (\<forall>a. a \<le> requests w \<longrightarrow> a \<noteq> x \<longrightarrow> heap w2 a = heap w a)"
    if "heap w2 = (heap w8)(x \<mapsto> b)" "requests w2 = requests w8" "0 < x" "x \<le> requests w"
    for x b
  proof (intro conjI)
    show "heap_bounded w2"
      using that w8(2,3) by (auto simp: heap_bounded_def)
    show "requests w \<le> requests w2" using that w8(3) by simp
    have "x \<noteq> ti" using that tib by auto
    then show "\<exists>t2. get_type w2 ti = Inr t2 \<and> ti_next t2 = junk_next e ti"
      using that w8(5,6) by (simp add: get_type_heap)
    show "\<forall>a. a \<le> requests w \<longrightarrow> a \<noteq> x \<longrightarrow> heap w2 a = heap w a"
      using that w8(7) by simp
  qed
  show ?thesis
  proof (cases "prev = 0")
    case True
    then have "upd_db w8 db (\<lambda>d. d\<lparr>types := ti\<rparr>) = Inr w2" using w8(1) by (simp add: link_def)
    from upd_db_effect [OF this] obtain d' where d': "get_db w8 db = Inr d'"
      "heap w2 = (heap w8)(db \<mapsto> DbBlock (d'\<lparr>types := ti\<rparr>))" "requests w2 = requests w8"
      by blast
    have dd: "d' = d" using d'(1) w8(7) dbb dbh by (simp add: get_db_heap)
    have "get_db w2 db = Inr (d\<lparr>types := ti\<rparr>)"
      using d'(2) dd by (simp add: get_db_heap)
    moreover have "\<forall>a. a \<le> requests w \<longrightarrow> a \<noteq> prev \<longrightarrow> a \<noteq> db \<longrightarrow> heap w2 a = heap w a"
      using fin [OF d'(2,3) dbb] by blast
    ultimately show ?thesis
      using fin [OF d'(2,3) dbb] True w8(4) by (simp add: ti_def)
  next
    case False
    then have "upd_type w8 prev (\<lambda>t. t\<lparr>ti_next := ti\<rparr>) = Inr w2"
      using w8(1) by (simp add: link_def)
    from upd_type_effect [OF this] obtain t' where t': "get_type w8 prev = Inr t'"
      "heap w2 = (heap w8)(prev \<mapsto> TypeBlock (t'\<lparr>ti_next := ti\<rparr>))" "requests w2 = requests w8"
      by blast
    have p0: "0 < prev" using False by simp
    have tp: "get_type w prev = Inr t'" using t'(1) w8(7) prevb by (simp add: get_type_heap)
    have "get_type w2 prev = Inr (t'\<lparr>ti_next := ti\<rparr>)"
      using t'(2) by (simp add: get_type_heap)
    moreover have "heap w2 db = heap w db"
      using t'(2) prevdb w8(7) dbb by simp
    moreover have "\<forall>a. a \<le> requests w \<longrightarrow> a \<noteq> prev \<longrightarrow> a \<noteq> db \<longrightarrow> heap w2 a = heap w a"
      using fin [OF t'(2,3) p0 prevb] by blast
    ultimately show ?thesis
      using fin [OF t'(2,3) p0 prevb] False w8(4) tp by (simp add: ti_def)
  qed
qed


lemma load_types_loop_builds:
  assumes "load_types_loop e w buf db f prev = Inr (True, w', buf')"
    and "heap_bounded w" and "get_db w db = Inr d"
    and "prev = 0 \<or> (\<exists>t. get_type w prev = Inr t)"
    and "at_eof f \<longrightarrow> content f = []"
  shows "\<exists>as. length as = length (filter (\<lambda>l. 68 \<le> c_strlen l) (file_lines (content f)))
           \<and> (\<forall>a \<in> set as. requests w < a)
           \<and> (\<forall>a. a \<le> requests w \<longrightarrow> a \<noteq> prev \<longrightarrow> a \<noteq> db \<longrightarrow> heap w' a = heap w a)
           \<and> (as = [] \<longrightarrow> heap w' db = heap w db \<and> (prev \<noteq> 0 \<longrightarrow> heap w' prev = heap w prev))
           \<and> (as \<noteq> [] \<longrightarrow>
                 (if prev = 0 then get_db w' db = Inr (d\<lparr>types := hd as\<rparr>)
                  else heap w' db = heap w db
                       \<and> (\<exists>t. get_type w prev = Inr t
                                \<and> get_type w' prev = Inr (t\<lparr>ti_next := hd as\<rparr>)))
                 \<and> type_path w' (hd as) as (junk_next e (last as)))"
  using assms
proof (induction e w buf db f prev arbitrary: d rule: load_types_loop.induct)
  case (1 e w buf db f prev)
  show ?case
  proof (cases "at_eof f")
    case True
    then have "w' = fclose w" using "1.prems"(1) by (simp add: load_types_loop.simps)
    moreover have "content f = []" using True "1.prems"(5) by simp
    ultimately show ?thesis
      by (intro exI [of _ "[]"]) (simp add: fclose_def file_lines_Nil)
  next
    case False
    obtain str buf1 f1 where fg: "fgets buf INSIZE f = (str, buf1, f1)"
      by (cases "fgets buf INSIZE f") auto
    note fc = fgets_cases [OF fg "1.prems"(5)]
    have unfold: "load_types_loop e w buf db f prev =
        (if \<not> str then load_types_loop e w buf1 db f1 prev
         else (case load_types_line e w buf1 db prev of
                 Inl x \<Rightarrow> Inl x
               | Inr (Return b w2) \<Rightarrow> Inr (b, w2, buf1)
               | Inr (Continue w2 prev2) \<Rightarrow> load_types_loop e w2 buf1 db f1 prev2))"
      using False fg by (subst load_types_loop.simps) simp
    show ?thesis
    proof (cases str)
      case nostr: False
      have run: "load_types_loop e w buf1 db f1 prev = Inr (True, w', buf')"
        using "1.prems"(1) unfold nostr by simp
      have eof: "at_eof f1 \<longrightarrow> content f1 = []" using fc by simp
      have same: "content f1 = content f" using fc nostr by simp
      show ?thesis
        using "1.IH"(1) [OF False refl fg [symmetric] refl nostr run "1.prems"(2,3,4) eof]
        unfolding same .
    next
      case True
      then obtain l where l: "content f \<noteq> []" "l = read_line (INSIZE - 1) (content f)"
        "strlen buf1 = Inr (c_strlen l)" "content f1 = drop (length l) (content f)"
        using fc by auto
      have eof: "at_eof f1 \<longrightarrow> content f1 = []" using fc by simp
      have lines: "file_lines (content f) = l # file_lines (content f1)"
        using file_lines_step [OF l(1)] l(2,4) by simp
      obtain w2 prev2 where line: "load_types_line e w buf1 db prev = Inr (Continue w2 prev2)"
        and run: "load_types_loop e w2 buf1 db f1 prev2 = Inr (True, w', buf')"
        using "1.prems"(1) unfold True
        by (auto split: sum.splits step.splits dest: load_types_line_return)
      note IH = "1.IH"(2) [OF False refl fg [symmetric] refl _ line refl run]
      show ?thesis
      proof (cases "c_strlen l < 68")
        case short: True
        have same: "w2 = w" "prev2 = prev"
          using load_types_line_skip [OF line l(3) short] by simp_all
        have "\<not> \<not> str" using True by simp
        from IH [OF this, unfolded same, OF "1.prems"(2,3,4) eof]
        show ?thesis using short by (simp add: lines)
      next
        case long: False
        note acc = load_types_line_accept [OF line l(3) long "1.prems"(2,3,4)]
        define ti where "ti = Suc (requests w)"
        have p2: "prev2 = ti" using acc by (simp add: ti_def)
        obtain t2 where t2: "get_type w2 ti = Inr t2" "ti_next t2 = junk_next e ti"
          using acc p2 by auto
        have b2: "heap_bounded w2" and r2: "requests w \<le> requests w2" using acc by simp_all
        have frame2: "\<forall>a. a \<le> requests w \<longrightarrow> a \<noteq> prev \<longrightarrow> a \<noteq> db \<longrightarrow> heap w2 a = heap w a"
          using acc by simp
        have dbh: "heap w db = Some (DbBlock d)" using "1.prems"(3) by (simp add: get_db_heap)
        then have dbb: "0 < db" "db \<le> requests w"
          using "1.prems"(2) by (auto simp: heap_bounded_def)
        have prevb: "prev \<le> requests w"
          using "1.prems"(2,4) by (auto simp: heap_bounded_def get_type_heap)
        have prevdb: "prev \<noteq> db" using "1.prems"(4) dbh dbb by (auto simp: get_type_heap)
        have tib: "ti \<noteq> db" "ti \<noteq> prev" "ti \<noteq> 0" "ti \<le> requests w2"
          using dbb prevb t2(1) b2 by (auto simp: ti_def heap_bounded_def get_type_heap)
        obtain d2 where d2: "get_db w2 db = Inr d2"
          using acc dbh by (auto simp: get_db_heap split: if_splits)
        have "\<not> \<not> str" using True by simp
        from IH [OF this, unfolded p2, OF b2 d2 _ eof] t2(1)
        obtain as' where as':
          "length as' = length (filter (\<lambda>l. 68 \<le> c_strlen l) (file_lines (content f1)))"
          "\<forall>a \<in> set as'. requests w2 < a"
          "\<forall>a. a \<le> requests w2 \<longrightarrow> a \<noteq> ti \<longrightarrow> a \<noteq> db \<longrightarrow> heap w' a = heap w2 a"
          "as' = [] \<longrightarrow> heap w' db = heap w2 db \<and> (ti \<noteq> 0 \<longrightarrow> heap w' ti = heap w2 ti)"
          "as' \<noteq> [] \<longrightarrow>
                 (if ti = 0 then get_db w' db = Inr (d2\<lparr>types := hd as'\<rparr>)
                  else heap w' db = heap w2 db
                       \<and> (\<exists>t. get_type w2 ti = Inr t
                                \<and> get_type w' ti = Inr (t\<lparr>ti_next := hd as'\<rparr>)))
                 \<and> type_path w' (hd as') as' (junk_next e (last as'))"
          by blast
        have db': "heap w' db = heap w2 db" using as'(4,5) tib by (cases "as' = []") auto
        have path: "type_path w' ti (ti # as') (junk_next e (last (ti # as')))"
        proof (cases "as' = []")
          case True
          then have "heap w' ti = heap w2 ti" using as'(4) tib by simp
          then show ?thesis using True t2 tib by (simp add: get_type_def)
        next
          case False
          then have "get_type w' ti = Inr (t2\<lparr>ti_next := hd as'\<rparr>)"
            and "type_path w' (hd as') as' (junk_next e (last as'))"
            using as'(5) tib t2 by auto
          then show ?thesis using False tib by simp
        qed
        have frame: "\<forall>a. a \<le> requests w \<longrightarrow> a \<noteq> prev \<longrightarrow> a \<noteq> db \<longrightarrow> heap w' a = heap w a"
        proof (intro allI impI)
          fix a assume a: "a \<le> requests w" "a \<noteq> prev" "a \<noteq> db"
          then have "a \<le> requests w2" "a \<noteq> ti" using r2 by (auto simp: ti_def)
          then have "heap w' a = heap w2 a" using as'(3) a by simp
          then show "heap w' a = heap w a" using frame2 a by simp
        qed
        have link: "if prev = 0 then get_db w' db = Inr (d\<lparr>types := ti\<rparr>)
                  else heap w' db = heap w db
                       \<and> (\<exists>t. get_type w prev = Inr t
                                \<and> get_type w' prev = Inr (t\<lparr>ti_next := ti\<rparr>))"
        proof (cases "prev = 0")
          case True
          then show ?thesis using acc db' p2 by (simp add: get_db_def)
        next
          case False
          have "prev \<le> requests w2" using prevb r2 by simp
          then have "heap w' prev = heap w2 prev" using as'(3) tib prevdb by simp
          then show ?thesis using False acc db' p2 by (auto simp: get_type_def)
        qed
        have "\<forall>a \<in> set (ti # as'). requests w < a"
          using as'(2) r2 by (auto simp: ti_def)
        moreover have "length (ti # as')
            = length (filter (\<lambda>l. 68 \<le> c_strlen l) (file_lines (content f)))"
          using as'(1) long by (simp add: lines)
        ultimately show ?thesis
          using frame link path by (intro exI [of _ "ti # as'"]) simp
      qed
    qed
  qed
qed


lemma load_planes_line_return:
  "load_planes_line e w str db prev = Inr (Return b w2) \<Longrightarrow> b = False"
  by (auto simp: load_planes_line_def seq_def Let_def split: sum.splits prod.splits if_splits)

lemma load_planes_line_skip:
  assumes "load_planes_line e w str db prev = Inr (Continue w2 prev2)"
    and "strlen str = Inr n" and "n < 610"
  shows "w2 = w \<and> prev2 = prev"
  using assms by (simp add: load_planes_line_def seq_def)

lemma upd_plane_effect:
  assumes "upd_plane w p f = Inr w'"
  shows "\<exists>t. get_plane w p = Inr t \<and> heap w' = (heap w)(p \<mapsto> PlaneBlock (f t))
              \<and> requests w' = requests w"
  using assms
  by (auto simp: upd_plane_def seq_def set_block_def split: sum.splits)

lemma get_plane_heap: "get_plane w p = Inr t \<longleftrightarrow> heap w p = Some (PlaneBlock t)"
  by (auto simp: get_plane_def split: option.splits block.splits)

lemma load_planes_line_accept:
  assumes run: "load_planes_line e w str db prev = Inr (Continue w2 prev2)"
    and len: "strlen str = Inr n" "\<not> n < 610"
    and bounded: "heap_bounded w"
    and db: "get_db w db = Inr d"
    and prev: "prev = 0 \<or> (\<exists>t. get_plane w prev = Inr t)"
  shows "prev2 = Suc (requests w) \<and> heap_bounded w2 \<and> requests w \<le> requests w2
         \<and> (\<exists>t2. get_plane w2 prev2 = Inr t2 \<and> pi_next t2 = junk_next e prev2)
         \<and> (\<forall>a. a \<le> requests w \<longrightarrow> a \<noteq> prev \<longrightarrow> a \<noteq> db \<longrightarrow> heap w2 a = heap w a)
         \<and> (if prev = 0 then get_db w2 db = Inr (d\<lparr>planes := prev2\<rparr>)
             else heap w2 db = heap w db
                  \<and> (\<exists>t. get_plane w prev = Inr t \<and> get_plane w2 prev = Inr (t\<lparr>pi_next := prev2\<rparr>)))"
proof -
  define ti where "ti = Suc (requests w)"
  define t0 where "t0 = \<lparr>pi_next = junk_next e ti, pi_id = 0, pi_nnum = 0, pi_model = 0,
                  pi_registrant = 0\<rparr>"
  have dbh: "heap w db = Some (DbBlock d)" using db by (simp add: get_db_heap)
  then have dbb: "0 < db" "db \<le> requests w" using bounded by (auto simp: heap_bounded_def)
  have prevb: "prev \<le> requests w"
    using prev bounded by (auto simp: heap_bounded_def get_plane_heap)
  have prevdb: "prev \<noteq> db" using prev dbh dbb by (auto simp: get_plane_heap)
  from run len obtain w1 where c: "planeInfoCreate e w = (ti, w1)" "ti \<noteq> 0"
    by (auto simp: load_planes_line_def seq_def Let_def planeInfoCreate_def malloc_def ti_def
        split: sum.splits prod.splits if_splits)
  then have w1: "heap w1 = (heap w)(ti \<mapsto> PlaneBlock t0)" "requests w1 = Suc (requests w)"
    by (auto simp: planeInfoCreate_def malloc_def Let_def set_block_def t0_def ti_def
        split: if_splits)
  define link where "link = (\<lambda>w7. if prev \<noteq> 0 then upd_plane w7 prev (\<lambda>t. t\<lparr>pi_next := ti\<rparr>)
              else upd_db w7 db (\<lambda>d. d\<lparr>planes := ti\<rparr>))"
  from run len c have body:
    "seq (parse_hex str 601) (\<lambda>v.
     seq (upd_plane w1 ti (\<lambda>t. t\<lparr>pi_id := v\<rparr>)) (\<lambda>w2.
     seq (pickup e w2 str 0 5) (\<lambda>(m, w3).
     seq (upd_plane w3 ti (\<lambda>t. t\<lparr>pi_nnum := m\<rparr>)) (\<lambda>w4.
     if m = 0 then Inr (Return False w4)
     else
       seq (parse_int str 37) (\<lambda>v'.
       seq (upd_plane w4 ti (\<lambda>t. t\<lparr>pi_model := v'\<rparr>)) (\<lambda>w5.
       seq (pickup e w5 str 58 107) (\<lambda>(m', w6).
       seq (upd_plane w6 ti (\<lambda>t. t\<lparr>pi_registrant := m'\<rparr>)) (\<lambda>w7.
       if m' = 0 then Inr (Return False w7)
       else
         seq (link w7) (\<lambda>w8.
         Inr (Continue w8 ti)))))))))) = Inr (Continue w2 prev2)"
    by (simp only: load_planes_line_def len seq_left if_False Let_def c prod.case link_def)
  have "\<exists>w8. link w8 = Inr w2 \<and> heap_bounded w8 \<and> requests w \<le> requests w8 \<and> prev2 = ti
          \<and> (\<exists>t8. heap w8 ti = Some (PlaneBlock t8) \<and> pi_next t8 = junk_next e ti)
          \<and> (\<forall>a. a \<le> requests w \<longrightarrow> heap w8 a = heap w a)"
    using body w1 bounded
    apply (elim seqE)
    apply (clarsimp split: if_splits)
    apply (elim seqE)
    apply (clarsimp split: if_splits)
    apply (elim seqE)
    apply (clarsimp split: if_splits)
    apply (elim seqE)
    apply (clarsimp split: if_splits)
    apply (elim seqE)
    apply (clarsimp split: if_splits)
    apply (drule upd_plane_effect pickup_effect)+
    apply (clarsimp simp: get_plane_heap ti_def)
    apply (rule exI, rule conjI, assumption)
    apply (auto simp: heap_bounded_def t0_def ti_def)
    done
  then obtain w8 t8 where w8: "link w8 = Inr w2" "heap_bounded w8" "requests w \<le> requests w8"
    "prev2 = ti" "heap w8 ti = Some (PlaneBlock t8)" "pi_next t8 = junk_next e ti"
    "\<forall>a. a \<le> requests w \<longrightarrow> heap w8 a = heap w a"
    by blast
  have tib: "requests w < ti" "ti \<noteq> db" "ti \<noteq> prev" "0 < ti"
    using dbb prevb by (auto simp: ti_def)
  have fin: "heap_bounded w2 \<and> requests w \<le> requests w2
         \<and> (\<exists>t2. get_plane w2 ti = Inr t2 \<and> pi_next t2 = junk_next e ti)
         \<and> (\<forall>a. a \<le> requests w \<longrightarrow> a \<noteq> x \<longrightarrow> heap w2 a = heap w a)"
    if "heap w2 = (heap w8)(x \<mapsto> b)" "requests w2 = requests w8" "0 < x" "x \<le> requests w"
    for x b
  proof (intro conjI)
    show "heap_bounded w2"
      using that w8(2,3) by (auto simp: heap_bounded_def)
    show "requests w \<le> requests w2" using that w8(3) by simp
    have "x \<noteq> ti" using that tib by auto
    then show "\<exists>t2. get_plane w2 ti = Inr t2 \<and> pi_next t2 = junk_next e ti"
      using that w8(5,6) by (simp add: get_plane_heap)
    show "\<forall>a. a \<le> requests w \<longrightarrow> a \<noteq> x \<longrightarrow> heap w2 a = heap w a"
      using that w8(7) by simp
  qed
  show ?thesis
  proof (cases "prev = 0")
    case True
    then have "upd_db w8 db (\<lambda>d. d\<lparr>planes := ti\<rparr>) = Inr w2" using w8(1) by (simp add: link_def)
    from upd_db_effect [OF this] obtain d' where d': "get_db w8 db = Inr d'"
      "heap w2 = (heap w8)(db \<mapsto> DbBlock (d'\<lparr>planes := ti\<rparr>))" "requests w2 = requests w8"
      by blast
    have dd: "d' = d" using d'(1) w8(7) dbb dbh by (simp add: get_db_heap)
    have "get_db w2 db = Inr (d\<lparr>planes := ti\<rparr>)"
      using d'(2) dd by (simp add: get_db_heap)
    moreover have "\<forall>a. a \<le> requests w \<longrightarrow> a \<noteq> prev \<longrightarrow> a \<noteq> db \<longrightarrow> heap w2 a = heap w a"
      using fin [OF d'(2,3) dbb] by blast
    ultimately show ?thesis
      using fin [OF d'(2,3) dbb] True w8(4) by (simp add: ti_def)
  next
    case False
    then have "upd_plane w8 prev (\<lambda>t. t\<lparr>pi_next := ti\<rparr>) = Inr w2"
      using w8(1) by (simp add: link_def)
    from upd_plane_effect [OF this] obtain t' where t': "get_plane w8 prev = Inr t'"
      "heap w2 = (heap w8)(prev \<mapsto> PlaneBlock (t'\<lparr>pi_next := ti\<rparr>))" "requests w2 = requests w8"
      by blast
    have p0: "0 < prev" using False by simp
    have tp: "get_plane w prev = Inr t'" using t'(1) w8(7) prevb by (simp add: get_plane_heap)
    have "get_plane w2 prev = Inr (t'\<lparr>pi_next := ti\<rparr>)"
      using t'(2) by (simp add: get_plane_heap)
    moreover have "heap w2 db = heap w db"
      using t'(2) prevdb w8(7) dbb by simp
    moreover have "\<forall>a. a \<le> requests w \<longrightarrow> a \<noteq> prev \<longrightarrow> a \<noteq> db \<longrightarrow> heap w2 a = heap w a"
      using fin [OF t'(2,3) p0 prevb] by blast
    ultimately show ?thesis
      using fin [OF t'(2,3) p0 prevb] False w8(4) tp by (simp add: ti_def)
  qed
qed


lemma load_planes_loop_builds:
  assumes "load_planes_loop e w buf db f prev = Inr (True, w', buf')"
    and "heap_bounded w" and "get_db w db = Inr d"
    and "prev = 0 \<or> (\<exists>t. get_plane w prev = Inr t)"
    and "at_eof f \<longrightarrow> content f = []"
  shows "\<exists>as. length as = length (filter (\<lambda>l. 610 \<le> c_strlen l) (file_lines (content f)))
           \<and> (\<forall>a \<in> set as. requests w < a)
           \<and> (\<forall>a. a \<le> requests w \<longrightarrow> a \<noteq> prev \<longrightarrow> a \<noteq> db \<longrightarrow> heap w' a = heap w a)
           \<and> (as = [] \<longrightarrow> heap w' db = heap w db \<and> (prev \<noteq> 0 \<longrightarrow> heap w' prev = heap w prev))
           \<and> (as \<noteq> [] \<longrightarrow>
                 (if prev = 0 then get_db w' db = Inr (d\<lparr>planes := hd as\<rparr>)
                  else heap w' db = heap w db
                       \<and> (\<exists>t. get_plane w prev = Inr t
                                \<and> get_plane w' prev = Inr (t\<lparr>pi_next := hd as\<rparr>)))
                 \<and> plane_path w' (hd as) as (junk_next e (last as)))"
  using assms
proof (induction e w buf db f prev arbitrary: d rule: load_planes_loop.induct)
  case (1 e w buf db f prev)
  show ?case
  proof (cases "at_eof f")
    case True
    then have "w' = fclose w" using "1.prems"(1) by (simp add: load_planes_loop.simps)
    moreover have "content f = []" using True "1.prems"(5) by simp
    ultimately show ?thesis
      by (intro exI [of _ "[]"]) (simp add: fclose_def file_lines_Nil)
  next
    case False
    obtain str buf1 f1 where fg: "fgets buf INSIZE f = (str, buf1, f1)"
      by (cases "fgets buf INSIZE f") auto
    note fc = fgets_cases [OF fg "1.prems"(5)]
    have unfold: "load_planes_loop e w buf db f prev =
        (if \<not> str then load_planes_loop e w buf1 db f1 prev
         else (case load_planes_line e w buf1 db prev of
                 Inl x \<Rightarrow> Inl x
               | Inr (Return b w2) \<Rightarrow> Inr (b, w2, buf1)
               | Inr (Continue w2 prev2) \<Rightarrow> load_planes_loop e w2 buf1 db f1 prev2))"
      using False fg by (subst load_planes_loop.simps) simp
    show ?thesis
    proof (cases str)
      case nostr: False
      have run: "load_planes_loop e w buf1 db f1 prev = Inr (True, w', buf')"
        using "1.prems"(1) unfold nostr by simp
      have eof: "at_eof f1 \<longrightarrow> content f1 = []" using fc by simp
      have same: "content f1 = content f" using fc nostr by simp
      show ?thesis
        using "1.IH"(1) [OF False refl fg [symmetric] refl nostr run "1.prems"(2,3,4) eof]
        unfolding same .
    next
      case True
      then obtain l where l: "content f \<noteq> []" "l = read_line (INSIZE - 1) (content f)"
        "strlen buf1 = Inr (c_strlen l)" "content f1 = drop (length l) (content f)"
        using fc by auto
      have eof: "at_eof f1 \<longrightarrow> content f1 = []" using fc by simp
      have lines: "file_lines (content f) = l # file_lines (content f1)"
        using file_lines_step [OF l(1)] l(2,4) by simp
      obtain w2 prev2 where line: "load_planes_line e w buf1 db prev = Inr (Continue w2 prev2)"
        and run: "load_planes_loop e w2 buf1 db f1 prev2 = Inr (True, w', buf')"
        using "1.prems"(1) unfold True
        by (auto split: sum.splits step.splits dest: load_planes_line_return)
      note IH = "1.IH"(2) [OF False refl fg [symmetric] refl _ line refl run]
      show ?thesis
      proof (cases "c_strlen l < 610")
        case short: True
        have same: "w2 = w" "prev2 = prev"
          using load_planes_line_skip [OF line l(3) short] by simp_all
        have "\<not> \<not> str" using True by simp
        from IH [OF this, unfolded same, OF "1.prems"(2,3,4) eof]
        show ?thesis using short by (simp add: lines)
      next
        case long: False
        note acc = load_planes_line_accept [OF line l(3) long "1.prems"(2,3,4)]
        define ti where "ti = Suc (requests w)"
        have p2: "prev2 = ti" using acc by (simp add: ti_def)
        obtain t2 where t2: "get_plane w2 ti = Inr t2" "pi_next t2 = junk_next e ti"
          using acc p2 by auto
        have b2: "heap_bounded w2" and r2: "requests w \<le> requests w2" using acc by simp_all
        have frame2: "\<forall>a. a \<le> requests w \<longrightarrow> a \<noteq> prev \<longrightarrow> a \<noteq> db \<longrightarrow> heap w2 a = heap w a"
          using acc by simp
        have dbh: "heap w db = Some (DbBlock d)" using "1.prems"(3) by (simp add: get_db_heap)
        then have dbb: "0 < db" "db \<le> requests w"
          using "1.prems"(2) by (auto simp: heap_bounded_def)
        have prevb: "prev \<le> requests w"
          using "1.prems"(2,4) by (auto simp: heap_bounded_def get_plane_heap)
        have prevdb: "prev \<noteq> db" using "1.prems"(4) dbh dbb by (auto simp: get_plane_heap)
        have tib: "ti \<noteq> db" "ti \<noteq> prev" "ti \<noteq> 0" "ti \<le> requests w2"
          using dbb prevb t2(1) b2 by (auto simp: ti_def heap_bounded_def get_plane_heap)
        obtain d2 where d2: "get_db w2 db = Inr d2"
          using acc dbh by (auto simp: get_db_heap split: if_splits)
        have "\<not> \<not> str" using True by simp
        from IH [OF this, unfolded p2, OF b2 d2 _ eof] t2(1)
        obtain as' where as':
          "length as' = length (filter (\<lambda>l. 610 \<le> c_strlen l) (file_lines (content f1)))"
          "\<forall>a \<in> set as'. requests w2 < a"
          "\<forall>a. a \<le> requests w2 \<longrightarrow> a \<noteq> ti \<longrightarrow> a \<noteq> db \<longrightarrow> heap w' a = heap w2 a"
          "as' = [] \<longrightarrow> heap w' db = heap w2 db \<and> (ti \<noteq> 0 \<longrightarrow> heap w' ti = heap w2 ti)"
          "as' \<noteq> [] \<longrightarrow>
                 (if ti = 0 then get_db w' db = Inr (d2\<lparr>planes := hd as'\<rparr>)
                  else heap w' db = heap w2 db
                       \<and> (\<exists>t. get_plane w2 ti = Inr t
                                \<and> get_plane w' ti = Inr (t\<lparr>pi_next := hd as'\<rparr>)))
                 \<and> plane_path w' (hd as') as' (junk_next e (last as'))"
          by blast
        have db': "heap w' db = heap w2 db" using as'(4,5) tib by (cases "as' = []") auto
        have path: "plane_path w' ti (ti # as') (junk_next e (last (ti # as')))"
        proof (cases "as' = []")
          case True
          then have "heap w' ti = heap w2 ti" using as'(4) tib by simp
          then show ?thesis using True t2 tib by (simp add: get_plane_def)
        next
          case False
          then have "get_plane w' ti = Inr (t2\<lparr>pi_next := hd as'\<rparr>)"
            and "plane_path w' (hd as') as' (junk_next e (last as'))"
            using as'(5) tib t2 by auto
          then show ?thesis using False tib by simp
        qed
        have frame: "\<forall>a. a \<le> requests w \<longrightarrow> a \<noteq> prev \<longrightarrow> a \<noteq> db \<longrightarrow> heap w' a = heap w a"
        proof (intro allI impI)
          fix a assume a: "a \<le> requests w" "a \<noteq> prev" "a \<noteq> db"
          then have "a \<le> requests w2" "a \<noteq> ti" using r2 by (auto simp: ti_def)
          then have "heap w' a = heap w2 a" using as'(3) a by simp
          then show "heap w' a = heap w a" using frame2 a by simp
        qed
        have link: "if prev = 0 then get_db w' db = Inr (d\<lparr>planes := ti\<rparr>)
                  else heap w' db = heap w db
                       \<and> (\<exists>t. get_plane w prev = Inr t
                                \<and> get_plane w' prev = Inr (t\<lparr>pi_next := ti\<rparr>))"
        proof (cases "prev = 0")
          case True
          then show ?thesis using acc db' p2 by (simp add: get_db_def)
        next
          case False
          have "prev \<le> requests w2" using prevb r2 by simp
          then have "heap w' prev = heap w2 prev" using as'(3) tib prevdb by simp
          then show ?thesis using False acc db' p2 by (auto simp: get_plane_def)
        qed
        have "\<forall>a \<in> set (ti # as'). requests w < a"
          using as'(2) r2 by (auto simp: ti_def)
        moreover have "length (ti # as')
            = length (filter (\<lambda>l. 610 \<le> c_strlen l) (file_lines (content f)))"
          using as'(1) long by (simp add: lines)
        ultimately show ?thesis
          using frame link path by (intro exI [of _ "ti # as'"]) simp
      qed
    qed
  qed
qed


lemma load_types_builds:
  assumes "load_types e w buf db = Inr (True, w', buf')"
    and "files e ''ACFTREF.txt'' = Some cs" and "heap_bounded w" and "get_db w db = Inr d"
  shows "\<exists>as d'. get_db w' db = Inr d'
           \<and> length as = length (filter (\<lambda>l. 68 \<le> c_strlen l) (file_lines cs))
           \<and> (if as = [] then d' = d
               else d' = d\<lparr>types := hd as\<rparr> \<and> type_path w' (hd as) as (junk_next e (last as)))"
proof -
  let ?w1 = "w\<lparr>open_files := Suc (open_files w)\<rparr>"
  have run: "load_types_loop e ?w1 buf db \<lparr>content = cs, at_eof = False\<rparr> 0 = Inr (True, w', buf')"
    using assms(1,2) by (simp add: load_types_def fopen_def)
  have b: "heap_bounded ?w1" using assms(3) by (simp add: heap_bounded_def)
  have d: "get_db ?w1 db = Inr d" using assms(4) by (simp add: get_db_def)
  from load_types_loop_builds [OF run b d] obtain as where as:
    "length as = length (filter (\<lambda>l. 68 \<le> c_strlen l) (file_lines cs))"
    "as = [] \<longrightarrow> heap w' db = heap w db"
    "as \<noteq> [] \<longrightarrow> get_db w' db = Inr (d\<lparr>types := hd as\<rparr>)
        \<and> type_path w' (hd as) as (junk_next e (last as))"
    by auto
  show ?thesis
  proof (cases "as = []")
    case True
    then have "get_db w' db = Inr d" using as(2) assms(4) by (simp add: get_db_def)
    then show ?thesis using as(1) True by (intro exI [of _ "[]"] exI [of _ d]) simp
  next
    case False
    then show ?thesis using as(1,3) by (intro exI [of _ as] exI [of _ "d\<lparr>types := hd as\<rparr>"]) simp
  qed
qed

lemma load_planes_builds:
  assumes "load_planes e w buf db = Inr (True, w', buf')"
    and "files e ''MASTER.txt'' = Some cs" and "heap_bounded w" and "get_db w db = Inr d"
  shows "\<exists>as d'. get_db w' db = Inr d'
           \<and> length as = length (filter (\<lambda>l. 610 \<le> c_strlen l) (file_lines cs))
           \<and> (if as = [] then d' = d
               else d' = d\<lparr>planes := hd as\<rparr> \<and> plane_path w' (hd as) as (junk_next e (last as)))"
proof -
  let ?w1 = "w\<lparr>open_files := Suc (open_files w)\<rparr>"
  have run: "load_planes_loop e ?w1 buf db \<lparr>content = cs, at_eof = False\<rparr> 0 = Inr (True, w', buf')"
    using assms(1,2) by (simp add: load_planes_def fopen_def)
  have b: "heap_bounded ?w1" using assms(3) by (simp add: heap_bounded_def)
  have d: "get_db ?w1 db = Inr d" using assms(4) by (simp add: get_db_def)
  from load_planes_loop_builds [OF run b d] obtain as where as:
    "length as = length (filter (\<lambda>l. 610 \<le> c_strlen l) (file_lines cs))"
    "as = [] \<longrightarrow> heap w' db = heap w db"
    "as \<noteq> [] \<longrightarrow> get_db w' db = Inr (d\<lparr>planes := hd as\<rparr>)
        \<and> plane_path w' (hd as) as (junk_next e (last as))"
    by auto
  show ?thesis
  proof (cases "as = []")
    case True
    then have "get_db w' db = Inr d" using as(2) assms(4) by (simp add: get_db_def)
    then show ?thesis using as(1) True by (intro exI [of _ "[]"] exI [of _ d]) simp
  next
    case False
    then show ?thesis using as(1,3) by (intro exI [of _ as] exI [of _ "d\<lparr>planes := hd as\<rparr>"]) simp
  qed
qed

text \<open>
  Claim C4 (as amended). Take the lines of the file as \<^verbatim>\<open>fgets\<close> delivers them (each ends
  after its newline, which is counted, or after 1023 bytes) and their width as \<^verbatim>\<open>strlen\<close>
  measures it (the bytes before the first zero byte). When a loader returns success, the list it has linked into
  the context holds exactly one record for each line of at least the minimum width (68
  for \<^verbatim>\<open>load_types\<close>, 610 for \<^verbatim>\<open>load_planes\<close>) and none for the shorter lines; with no such line
  the context is unchanged. The records \<open>as\<close> are linked in order, and behind the last one comes
  the value its \<^verbatim>\<open>next\<close> field held when allocated.
\<close>

theorem loaders_skip_short_lines:
  "(load_types e w buf db = Inr (True, w', buf') \<and> files e ''ACFTREF.txt'' = Some cs
      \<and> heap_bounded w \<and> get_db w db = Inr d
    \<longrightarrow> (\<exists>as d'. get_db w' db = Inr d'
           \<and> length as = length (filter (\<lambda>l. 68 \<le> c_strlen l) (file_lines cs))
           \<and> (if as = [] then d' = d
               else d' = d\<lparr>types := hd as\<rparr>
                    \<and> type_path w' (hd as) as (junk_next e (last as)))))
   \<and> (load_planes e w buf db = Inr (True, w', buf') \<and> files e ''MASTER.txt'' = Some cs
      \<and> heap_bounded w \<and> get_db w db = Inr d
    \<longrightarrow> (\<exists>as d'. get_db w' db = Inr d'
           \<and> length as = length (filter (\<lambda>l. 610 \<le> c_strlen l) (file_lines cs))
           \<and> (if as = [] then d' = d
               else d' = d\<lparr>planes := hd as\<rparr>
                    \<and> plane_path w' (hd as) as (junk_next e (last as)))))"
  using load_types_builds [of e w buf db w' buf' cs d]
    load_planes_builds [of e w buf db w' buf' cs d]
  by blast

lemma load_types_run:
  "case load_types (zeroed_env (two_files (Some three_type_lines) None)) fresh_db_world
          (replicate 96 NUL @ tail) 1 of
     Inr (ok, w', buf') \<Rightarrow> ok
   | _ \<Rightarrow> False"
  by code_simp

lemma load_planes_run:
  "case load_planes (zeroed_env (two_files None (Some two_plane_lines))) fresh_db_world
          (replicate 96 NUL @ tail) 1 of
     Inr (ok, w', buf') \<Rightarrow> ok
   | _ \<Rightarrow> False"
  by code_simp

lemma three_type_lines_count:
  "map length (file_lines three_type_lines) = [76, 41, 76]
   \<and> length (filter (\<lambda>l. 68 \<le> c_strlen l) (file_lines three_type_lines)) = 2"
  by code_simp

lemma two_plane_lines_count:
  "map length (file_lines two_plane_lines) = [611, 101]
   \<and> length (filter (\<lambda>l. 610 \<le> c_strlen l) (file_lines two_plane_lines)) = 1"
  by code_simp

theorem loaders_skip_short_lines_witness:
  "(\<exists>as d' w' buf'.
      load_types (zeroed_env (two_files (Some three_type_lines) None)) fresh_db_world inbuf0 1
        = Inr (True, w', buf')
      \<and> get_db w' 1 = Inr d' \<and> length as = 2 \<and> types d' = hd as
      \<and> type_path w' (hd as) as 0)
   \<and> (\<exists>as d' w' buf'.
      load_planes (zeroed_env (two_files None (Some two_plane_lines))) fresh_db_world inbuf0 1
        = Inr (True, w', buf')
      \<and> get_db w' 1 = Inr d' \<and> length as = 1 \<and> planes d' = hd as
      \<and> plane_path w' (hd as) as 0)"
proof -
  let ?d = "\<lparr>types = 0, last_model = 0, last_ti = 0, planes = 0, last_icao = 0, last_pi = 0\<rparr>"
  have b: "heap_bounded fresh_db_world"
    by (simp add: heap_bounded_def fresh_db_world_def)
  have d: "get_db fresh_db_world 1 = Inr ?d"
    by (simp add: get_db_def fresh_db_world_def)
  let ?et = "zeroed_env (two_files (Some three_type_lines) None)"
  let ?ep = "zeroed_env (two_files None (Some two_plane_lines))"
  have ft: "files ?et ''ACFTREF.txt'' = Some three_type_lines"
    by (simp add: zeroed_env_def two_files_def)
  have fp: "files ?ep ''MASTER.txt'' = Some two_plane_lines"
    by (simp add: zeroed_env_def two_files_def)
  have j: "junk_next ?et a = 0" "junk_next ?ep a = 0" for a
    by (simp_all add: zeroed_env_def)
  obtain wt bt where rt: "load_types ?et fresh_db_world inbuf0 1 = Inr (True, wt, bt)"
    using load_types_run [of "replicate 928 NUL"] unfolding inbuf0_split
    by (auto split: sum.splits)
  obtain wp bp where rp: "load_planes ?ep fresh_db_world inbuf0 1 = Inr (True, wp, bp)"
    using load_planes_run [of "replicate 928 NUL"] unfolding inbuf0_split
    by (auto split: sum.splits)
  from loaders_skip_short_lines [of ?et fresh_db_world inbuf0 1 wt bt three_type_lines ?d]
    rt ft b d three_type_lines_count
  obtain ast dt where t: "get_db wt 1 = Inr dt" "length ast = 2"
    "dt = ?d\<lparr>types := hd ast\<rparr>" "type_path wt (hd ast) ast (junk_next ?et (last ast))"
    by (auto split: if_splits)
  from loaders_skip_short_lines [of ?ep fresh_db_world inbuf0 1 wp bp two_plane_lines ?d]
    rp fp b d two_plane_lines_count
  obtain asp dp where p: "get_db wp 1 = Inr dp" "length asp = 1"
    "dp = ?d\<lparr>planes := hd asp\<rparr>" "plane_path wp (hd asp) asp (junk_next ?ep (last asp))"
    by (auto split: if_splits)
  have "\<exists>as d' w' buf'. load_types ?et fresh_db_world inbuf0 1 = Inr (True, w', buf')
      \<and> get_db w' 1 = Inr d' \<and> length as = 2 \<and> types d' = hd as \<and> type_path w' (hd as) as 0"
    using rt t j by (intro exI [of _ ast] exI [of _ dt] exI [of _ wt] exI [of _ bt]) simp
  moreover
  have "\<exists>as d' w' buf'. load_planes ?ep fresh_db_world inbuf0 1 = Inr (True, w', buf')
      \<and> get_db w' 1 = Inr d' \<and> length as = 1 \<and> planes d' = hd as \<and> plane_path w' (hd as) as 0"
    using rp p j by (intro exI [of _ asp] exI [of _ dp] exI [of _ wp] exI [of _ bp]) simp
  ultimately show ?thesis by (rule conjI)
qed

lemma nul_line_run:
  "records_linked
     (load_types (zeroed_env (two_files (Some nul_line) None)) fresh_db_world
        (replicate 96 NUL @ tail) 1) 1 []"
  by code_simp

lemma long_line_run:
  "records_linked
     (load_types (zeroed_env (two_files (Some long_line) None)) fresh_db_world
        (replicate 96 NUL @ tail) 1) 1 [2, 5]"
  by code_simp

lemma single_lines:
  "length nul_line = 80 \<and> count_list nul_line newline = 1
   \<and> length long_line = 1099 \<and> count_list long_line newline = 1"
  by code_simp

text \<open>
  Claim C4 as stated fails where a line of the file is not what \<^verbatim>\<open>fgets\<close> and \<^verbatim>\<open>strlen\<close> see. A
  single line of 80 bytes with a zero byte as its eleventh has the \<^verbatim>\<open>strlen\<close> 10 and gives no
  record. A single line of 1099 bytes reaches the loader as a piece of 1023 bytes and a piece
  of 76 bytes and gives two records, at the addresses 2 and 5.
\<close>

theorem loaders_lines_counterexample:
  "length nul_line = 80 \<and> count_list nul_line newline = 1
   \<and> records_linked
        (load_types (zeroed_env (two_files (Some nul_line) None)) fresh_db_world inbuf0 1) 1 []
   \<and> length long_line = 1099 \<and> count_list long_line newline = 1
   \<and> records_linked
        (load_types (zeroed_env (two_files (Some long_line) None)) fresh_db_world inbuf0 1) 1
        [2, 5]"
  unfolding inbuf0_split using nul_line_run long_line_run single_lines by simp

end
